theory Spec2Isabelle
  imports Complex_Main
begin

section \<open>Batched Metropolis sampler with local updates (metropolis\_local\_v2.cc)\<close>

text \<open>
  The embedding follows \<^verbatim>\<open>Sources/Sampler/metropolis_local_v2.cc\<close>.
  A finite C++ \<^verbatim>\<open>double\<close> is the \<^typ>\<open>real\<close> it denotes and a
  \<^verbatim>\<open>std::complex<double>\<close> a \<^typ>\<open>complex\<close>; comparisons of doubles are exact,
  and where the code computes with doubles (the acceptance probability) the model
  rounds as the platform does, see below. The alphabet and the oracle's values are
  taken to be finite, so no NaN arises. An Eigen
  \<^verbatim>\<open>Index\<close> is an \<^typ>\<open>int\<close> where it can be negative (the constructor
  arguments) and a \<^typ>\<open>nat\<close> once validated. A thrown exception and an
  operation whose behaviour C++ leaves undefined are both values of the type
  \<open>error\<close>, so that every run of the model either returns or names what went wrong.
\<close>

subsection \<open>Errors\<close>

datatype error =
    InvalidInputError string  \<comment> \<open>the exception thrown by the validation code\<close>
  | InvertedRange int int
      \<comment> \<open>\<^verbatim>\<open>std::uniform_int_distribution{a, b}\<close> with \<open>b < a\<close>: undefined behaviour\<close>
  | AssertionFailed  \<comment> \<open>the \<^verbatim>\<open>assert\<close> of \<^verbatim>\<open>Flipper::Read\<close>\<close>
  | IndexOutOfRange  \<comment> \<open>reading a span beyond its end: undefined behaviour\<close>
  | OracleError nat  \<comment> \<open>whatever the amplitude oracle throws\<close>

definition and_then :: "error + 'a \<Rightarrow> ('a \<Rightarrow> error + 'b) \<Rightarrow> error + 'b" where
  "and_then r k = (case r of Inl e \<Rightarrow> Inl e | Inr x \<Rightarrow> k x)"

subsection \<open>Printing an integer, as \<^verbatim>\<open>operator<<\<close> does\<close>

fun show_nat :: "nat \<Rightarrow> string" where
  "show_nat n =
     (if n < 10 then [''0123456789'' ! n]
      else show_nat (n div 10) @ [''0123456789'' ! (n mod 10)])"

definition show_int :: "int \<Rightarrow> string" where
  "show_int i = (if i < 0 then ''-'' @ show_nat (nat (- i)) else show_nat (nat i))"

subsection \<open>The random engine and the standard distributions\<close>

text \<open>
  The engine is the sequence of raw numbers it has still to produce; a draw takes the
  first and leaves the rest. \<^verbatim>\<open>std::uniform_int_distribution{a, b}\<close> requires
  \<open>a \<le> b\<close> and returns a number of \<open>[a, b]\<close>: the raw number reduced into the range
  (every number of the range is the result for some engine).
  \<^verbatim>\<open>std::uniform_real_distribution<double>{}\<close> returns a number of \<open>[0, 1)\<close>
  with 53 random bits.
\<close>

type_synonym engine = "nat \<Rightarrow> nat"

definition advance :: "engine \<Rightarrow> engine" where
  "advance e = (\<lambda>n. e (Suc n))"

definition uniform_int_distribution :: "int \<Rightarrow> int \<Rightarrow> engine \<Rightarrow> error + (int \<times> engine)" where
  "uniform_int_distribution a b e =
     (if b < a then Inl (InvertedRange a b)
      else Inr (a + int (e 0 mod nat (b - a + 1)), advance e))"

definition uniform_real_distribution :: "engine \<Rightarrow> error + (real \<times> engine)" where
  "uniform_real_distribution e = Inr (real (e 0 mod 2 ^ 53) / 2 ^ 53, advance e)"

text \<open>\<^verbatim>\<open>static_cast<int>\<close> of a \<^verbatim>\<open>size_t\<close>: the value modulo \<open>2^32\<close>, read as
  a signed 32-bit number.\<close>

definition static_cast_int :: "nat \<Rightarrow> int" where
  "static_cast_int n = (int n + 2 ^ 31) mod 2 ^ 32 - 2 ^ 31"

text \<open>\<^verbatim>\<open>std::generate(first, first + n, gen)\<close>: \<open>n\<close> calls of the generator, in
  order, each on the engine the previous one left.\<close>

fun generate :: "nat \<Rightarrow> (engine \<Rightarrow> error + ('a \<times> engine)) \<Rightarrow> engine \<Rightarrow> error + ('a list \<times> engine)" where
  "generate 0 gen e = Inr ([], e)"
| "generate (Suc n) gen e =
     (case gen e of
        Inl err \<Rightarrow> Inl err
      | Inr (v, e') \<Rightarrow>
          (case generate n gen e' of
             Inl err \<Rightarrow> Inl err
           | Inr (vs, e'') \<Rightarrow> Inr (v # vs, e'')))"

subsection \<open>Double-precision arithmetic\<close>

text \<open>
  The result of a double operation is not the exact one: \<open>-\<close> and \<open>*\<close> round it
  to the nearest double, and \<^verbatim>\<open>exp\<close> is what the library returns (the C library's
  \<^verbatim>\<open>exp\<close>, or Eigen's vectorized one). The model takes both as a parameter, a
  pair of the rounding and of \<^verbatim>\<open>exp\<close>, and fixes of them only this:
  \<^item> rounding is monotone;
  \<^item> an integer of magnitude at most \<open>2^53\<close> is a double, so rounding leaves it;
  \<^item> a number of magnitude at most \<open>2^-1075\<close>, half the least positive double, rounds
    to zero (underflow);
  \<^item> \<^verbatim>\<open>exp\<close> returns no negative number, at least 1 on an argument that is not
    negative, and at most twice the exact value on an argument from \<open>-700\<close> upwards,
    where the exact value is in the range of the normal doubles.
  The three properties of rounding are those of IEEE 754 binary64 in the default
  rounding mode; the three of \<^verbatim>\<open>exp\<close> are assumed of the library. A result that
  overflows to \<open>+\<infinity>\<close> in the code is a large number here; the acceptance
  probability takes the minimum with 1 and is the same for both.
\<close>

definition is_double_arith :: "(real \<Rightarrow> real) \<times> (real \<Rightarrow> real) \<Rightarrow> bool" where
  "is_double_arith a \<longleftrightarrow>
     (case a of (rnd, fexp) \<Rightarrow>
        (\<forall>x y. x \<le> y \<longrightarrow> rnd x \<le> rnd y)
        \<and> (\<forall>k :: int. \<bar>k\<bar> \<le> 2 ^ 53 \<longrightarrow> rnd (of_int k) = of_int k)
        \<and> (\<forall>x. \<bar>x\<bar> \<le> 1 / 2 ^ 1075 \<longrightarrow> rnd x = 0)
        \<and> (\<forall>x. 0 \<le> fexp x)
        \<and> (\<forall>x. 0 \<le> x \<longrightarrow> 1 \<le> fexp x)
        \<and> (\<forall>x. - 700 \<le> x \<longrightarrow> fexp x \<le> 2 * exp x))"

text \<open>One such arithmetic: exact but for the underflow.\<close>

definition flush_to_zero :: "real \<Rightarrow> real" where
  "flush_to_zero x = (if \<bar>x\<bar> \<le> 1 / 2 ^ 1075 then 0 else x)"

typedef double_arith = "{a. is_double_arith a}"
proof
  have small: "(1::real) / 2 ^ 1075 < 1" by simp
  have mono: "flush_to_zero x \<le> flush_to_zero y" if "x \<le> y" for x y
    using that by (auto simp: flush_to_zero_def abs_if split: if_splits)
  have ints: "flush_to_zero (of_int k) = of_int k" for k :: int
  proof (cases "k = 0")
    case True
    then show ?thesis by (simp add: flush_to_zero_def)
  next
    case False
    then have "1 \<le> \<bar>k\<bar>" by simp
    then have "(1::real) \<le> \<bar>of_int k\<bar>" by (metis of_int_1_le_iff of_int_abs)
    with small show ?thesis by (simp add: flush_to_zero_def)
  qed
  have e: "exp x \<le> 2 * exp x" for x :: real
    by simp
  have "is_double_arith (flush_to_zero, exp)"
    unfolding is_double_arith_def
    by (simp add: mono ints e) (simp add: flush_to_zero_def)
  then show "(flush_to_zero, exp) \<in> {a. is_double_arith a}" by simp
qed

definition d_round :: "double_arith \<Rightarrow> real \<Rightarrow> real" where
  "d_round fp = fst (Rep_double_arith fp)"

definition d_exp :: "double_arith \<Rightarrow> real \<Rightarrow> real" where
  "d_exp fp = snd (Rep_double_arith fp)"

subsection \<open>Row-major matrices\<close>

record RowMatrix =
  rows :: nat
  cols :: nat
  data :: "real list"  \<comment> \<open>row after row, as Eigen stores a row-major matrix\<close>

definition coeff :: "RowMatrix \<Rightarrow> nat \<Rightarrow> nat \<Rightarrow> real" where
  "coeff m j s = data m ! (j * cols m + s)"

definition set_coeff :: "RowMatrix \<Rightarrow> nat \<Rightarrow> nat \<Rightarrow> real \<Rightarrow> RowMatrix" where
  "set_coeff m j s v = m\<lparr>data := (data m)[j * cols m + s := v]\<rparr>"

definition row :: "RowMatrix \<Rightarrow> nat \<Rightarrow> real list" where
  "row m j = take (cols m) (drop (j * cols m) (data m))"

definition rows_of :: "RowMatrix \<Rightarrow> real list list" where
  "rows_of m = map (row m) [0..<rows m]"

subsection \<open>Flipper (the chain state)\<close>

text \<open>A member \<^verbatim>\<open>name_\<close> of the source is the field \<open>m_name\<close> here.
  \<^verbatim>\<open>BatchSize()\<close> and \<^verbatim>\<open>SystemSize()\<close> are the numbers of rows and columns
  of \<^verbatim>\<open>state_\<close>, and \<^verbatim>\<open>Generator()\<close> is \<^verbatim>\<open>engine_.Get()\<close>: the header
  that declares them is not part of the file.\<close>

record ConfDiff =
  diff_sites :: "nat list"  \<comment> \<open>the field \<^verbatim>\<open>sites\<close>\<close>
  diff_values :: "real list"  \<comment> \<open>the field \<^verbatim>\<open>values\<close>\<close>

record Flipper =
  m_sites :: "nat list"
  m_values :: "real list"
  m_state :: RowMatrix
  m_local_states :: "real list"
  m_engine :: engine

definition BatchSize :: "Flipper \<Rightarrow> nat" where
  "BatchSize f = rows (m_state f)"

definition SystemSize :: "Flipper \<Rightarrow> nat" where
  "SystemSize f = cols (m_state f)"

definition RandomState :: "Flipper \<Rightarrow> error + Flipper" where
  "RandomState f =
     and_then
       (generate (rows (m_state f) * cols (m_state f))
          (\<lambda>e. and_then
                  (uniform_int_distribution 0
                     (static_cast_int (length (m_local_states f)) - 1) e)
                  (\<lambda>(i, e'). Inr (m_local_states f ! nat i, e')))
          (m_engine f))
       (\<lambda>(xs, e'). Inr (f\<lparr>m_state := (m_state f)\<lparr>data := xs\<rparr>, m_engine := e'\<rparr>))"

definition RandomSites :: "Flipper \<Rightarrow> error + Flipper" where
  "RandomSites f =
     and_then
       (generate (length (m_sites f))
          (\<lambda>e. and_then
                  (uniform_int_distribution 0 (int (SystemSize f) - 1) e)
                  (\<lambda>(i, e'). Inr (nat i, e')))
          (m_engine f))
       (\<lambda>(xs, e'). Inr (f\<lparr>m_sites := xs, m_engine := e'\<rparr>))"

text \<open>The index shift of \<^verbatim>\<open>RandomValues\<close>:
  \<^verbatim>\<open>local_states_[idx + (local_states_[idx] >= current)]\<close>.\<close>

definition proposal_value :: "real list \<Rightarrow> real \<Rightarrow> nat \<Rightarrow> real" where
  "proposal_value ls current idx = ls ! (idx + (if ls ! idx \<ge> current then 1 else 0))"

definition RandomValues_g :: "Flipper \<Rightarrow> nat \<Rightarrow> error + (real \<times> engine)" where
  "RandomValues_g f j =
     and_then
       (uniform_int_distribution 0 (static_cast_int (length (m_local_states f)) - 2)
          (m_engine f))
       (\<lambda>(idx, e').
          Inr (proposal_value (m_local_states f) (coeff (m_state f) j (m_sites f ! j)) (nat idx),
               e'))"

fun RandomValues_loop :: "nat list \<Rightarrow> Flipper \<Rightarrow> error + Flipper" where
  "RandomValues_loop [] f = Inr f"
| "RandomValues_loop (j # js) f =
     and_then (RandomValues_g f j)
       (\<lambda>(v, e'). RandomValues_loop js (f\<lparr>m_values := (m_values f)[j := v], m_engine := e'\<rparr>))"

definition RandomValues :: "Flipper \<Rightarrow> error + Flipper" where
  "RandomValues f = RandomValues_loop [0..<BatchSize f] f"

definition Flipper_Reset :: "Flipper \<Rightarrow> error + Flipper" where
  "Flipper_Reset f = and_then (and_then (RandomState f) RandomSites) RandomValues"

text \<open>The constructor. \<^verbatim>\<open>resize\<close> leaves the new cells uninitialised; they are
  zero here, and \<^verbatim>\<open>Reset\<close> writes every one of them before anything reads it.
  The engine is default-constructed in the source (seeded from outside), so it is an
  argument.\<close>

definition Flipper_ctor :: "int \<times> int \<Rightarrow> real list \<Rightarrow> engine \<Rightarrow> error + Flipper" where
  "Flipper_ctor shape local_states e =
     (case shape of (batch_size, system_size) \<Rightarrow>
        if batch_size < 1 then
          Inl (InvalidInputError
                 (''invalid batch size: '' @ show_int batch_size @ ''; expected >=1''))
        else if system_size < 1 then
          Inl (InvalidInputError
                 (''invalid system size: '' @ show_int system_size @ ''; expected >=1''))
        else if local_states = [] then
          Inl (InvalidInputError ''invalid local states: []'')
        else
          Flipper_Reset
            \<lparr>m_sites = replicate (nat batch_size) 0,
             m_values = replicate (nat batch_size) 0,
             m_state = \<lparr>rows = nat batch_size, cols = nat system_size,
                       data = replicate (nat batch_size * nat system_size) 0\<rparr>,
             m_local_states = sort local_states,
             m_engine = e\<rparr>)"

text \<open>\<^verbatim>\<open>Flipper::Next\<close>: the accepted chains write their proposed value, then new
  sites and values are drawn for every chain.\<close>

definition commit :: "Flipper \<Rightarrow> bool list \<Rightarrow> RowMatrix" where
  "commit f accept =
     fold (\<lambda>j st. if accept ! j then set_coeff st j (m_sites f ! j) (m_values f ! j) else st)
       [0..<BatchSize f] (m_state f)"

definition Flipper_Next :: "Flipper \<Rightarrow> bool list \<Rightarrow> error + Flipper" where
  "Flipper_Next f accept =
     (if length accept < BatchSize f then Inl IndexOutOfRange
      else and_then (RandomSites (f\<lparr>m_state := commit f accept\<rparr>)) RandomValues)"

text \<open>\<^verbatim>\<open>Flipper::Read()\<close>: chain \<open>j\<close>'s diff is a pair of one-element spans that
  point at \<^verbatim>\<open>sites_(j)\<close> and \<^verbatim>\<open>values_(j)\<close>; reading through them gives the
  present contents of those cells.\<close>

definition Flipper_Read :: "Flipper \<Rightarrow> ConfDiff list" where
  "Flipper_Read f = map (\<lambda>j. \<lparr>diff_sites = [m_sites f ! j], diff_values = [m_values f ! j]\<rparr>) [0..<BatchSize f]"

definition Current :: "Flipper \<Rightarrow> RowMatrix" where
  "Current f = m_state f"

text \<open>\<^verbatim>\<open>Flipper::Read(x)\<close>: a const method; the model returns the buffer it fills.\<close>

definition Flipper_Read_into :: "Flipper \<Rightarrow> RowMatrix \<Rightarrow> error + RowMatrix" where
  "Flipper_Read_into f x =
     (if \<not> (rows x = BatchSize f \<and> cols x = SystemSize f) then Inl AssertionFailed
      else
        Inr (fold (\<lambda>j x'. let suggestion = Flipper_Read f ! j
                           in set_coeff x' j (diff_sites suggestion ! 0) (diff_values suggestion ! 0))
               [0..<BatchSize f] (m_state f)))"

definition CheckBatchSize :: "int \<Rightarrow> error + int" where
  "CheckBatchSize batch_size =
     (if batch_size \<le> 0 then
        Inl (InvalidInputError
               (''invalid batch size: '' @ show_int batch_size @ ''; expected a positive number''))
      else Inr batch_size)"

subsection \<open>MetropolisLocalV2 (the batch sampler)\<close>

text \<open>
  Modelled from the spec: the machine \<^verbatim>\<open>RbmSpinV2\<close> is not part of the file. It
  gives the number of sites \<^verbatim>\<open>Nvisible()\<close>, the local alphabet
  \<^verbatim>\<open>GetHilbert().LocalStates()\<close> and the amplitude oracle
  \<^verbatim>\<open>LogVal(x, out, cache)\<close>, which may throw and otherwise fills \<open>out\<close> with one
  log-amplitude for each row of \<open>x\<close>. The sampler holds it by reference, so it is an
  argument of every operation.
\<close>

record Machine =
  Nvisible :: int
  LocalStates :: "real list"
  LogVal :: "RowMatrix \<Rightarrow> error + complex list"

record MetropolisLocalV2 =
  m_flipper :: Flipper
  m_proposed_X :: RowMatrix
  m_proposed_Y :: "complex list"
  m_current_Y :: "complex list"
  m_randoms :: "real list"
  m_accept :: "bool list"

text \<open>\<^verbatim>\<open>(proposed_Y_ - current_Y_).real().exp().square().min(1.0)\<close>, one
  coefficient of it, in double arithmetic: the real part of the difference is the
  rounded difference of the real parts, \<^verbatim>\<open>square\<close> is a rounded product, and
  \<^verbatim>\<open>min\<close> is exact.\<close>

definition acceptance_probability :: "double_arith \<Rightarrow> complex \<Rightarrow> complex \<Rightarrow> real" where
  "acceptance_probability fp proposed current =
     (let x = d_round fp (Re proposed - Re current);
          y = d_exp fp x
      in min (d_round fp (y * y)) 1)"

text \<open>\<^verbatim>\<open>c.select(a, b)\<close>, coefficient by coefficient.\<close>

definition select :: "bool list \<Rightarrow> 'a list \<Rightarrow> 'a list \<Rightarrow> 'a list" where
  "select c a b = map (\<lambda>(c, a, b). if c then a else b) (zip c (zip a b))"

text \<open>The constructor that takes \<^verbatim>\<open>std::true_type\<close>. The buffers are allocated
  uninitialised (zero here); \<^verbatim>\<open>Next\<close> writes each before reading it.\<close>

definition MetropolisLocalV2_safe :: "Machine \<Rightarrow> int \<Rightarrow> engine \<Rightarrow> error + MetropolisLocalV2" where
  "MetropolisLocalV2_safe machine batch_size e =
     and_then (Flipper_ctor (batch_size, Nvisible machine) (LocalStates machine) e)
       (\<lambda>f. and_then (LogVal machine (Current f))
          (\<lambda>Y. Inr \<lparr>m_flipper = f,
                     m_proposed_X = \<lparr>rows = nat batch_size, cols = nat (Nvisible machine),
                                     data = replicate (nat batch_size * nat (Nvisible machine)) 0\<rparr>,
                     m_proposed_Y = replicate (nat batch_size) 0,
                     m_current_Y = Y,
                     m_randoms = replicate (nat batch_size) 0,
                     m_accept = replicate (nat batch_size) False\<rparr>))"

definition MetropolisLocalV2_ctor :: "Machine \<Rightarrow> int \<Rightarrow> engine \<Rightarrow> error + MetropolisLocalV2" where
  "MetropolisLocalV2_ctor machine batch_size e =
     and_then (CheckBatchSize batch_size) (\<lambda>b. MetropolisLocalV2_safe machine b e)"

text \<open>A method that throws leaves the object behind: the error comes with the state
  the object has at that moment.\<close>

definition MetropolisLocalV2_Reset ::
  "Machine \<Rightarrow> MetropolisLocalV2 \<Rightarrow> (error \<times> MetropolisLocalV2) + MetropolisLocalV2" where
  "MetropolisLocalV2_Reset machine s =
     (case Flipper_Reset (m_flipper s) of
        Inl err \<Rightarrow> Inl (err, s)
      | Inr f \<Rightarrow>
          (case LogVal machine (Current f) of
             Inl err \<Rightarrow> Inl (err, s\<lparr>m_flipper := f\<rparr>)
           | Inr Y \<Rightarrow> Inr (s\<lparr>m_flipper := f, m_current_Y := Y\<rparr>)))"

definition MetropolisLocalV2_Read :: "MetropolisLocalV2 \<Rightarrow> RowMatrix \<times> complex list" where
  "MetropolisLocalV2_Read s = (Current (m_flipper s), m_current_Y s)"

definition MetropolisLocalV2_Next ::
  "double_arith \<Rightarrow> Machine \<Rightarrow> MetropolisLocalV2
     \<Rightarrow> (error \<times> MetropolisLocalV2) + MetropolisLocalV2" where
  "MetropolisLocalV2_Next fp machine s =
     (case Flipper_Read_into (m_flipper s) (m_proposed_X s) of
        Inl err \<Rightarrow> Inl (err, s)
      | Inr X \<Rightarrow>
          (case LogVal machine X of
             Inl err \<Rightarrow> Inl (err, s\<lparr>m_proposed_X := X\<rparr>)
           | Inr Y \<Rightarrow>
               (case generate (length (m_randoms s)) uniform_real_distribution
                       (m_engine (m_flipper s)) of
                  Inl err \<Rightarrow> Inl (err, s\<lparr>m_proposed_X := X, m_proposed_Y := Y\<rparr>)
                | Inr (rs, e') \<Rightarrow>
                    (let acc = map2 (\<lambda>r p. r < p) rs
                                 (map2 (acceptance_probability fp) Y (m_current_Y s));
                         s' = s\<lparr>m_flipper := (m_flipper s)\<lparr>m_engine := e'\<rparr>,
                                m_proposed_X := X,
                                m_proposed_Y := Y,
                                m_current_Y := select acc Y (m_current_Y s),
                                m_randoms := rs,
                                m_accept := acc\<rparr>
                     in case Flipper_Next (m_flipper s') acc of
                          Inl err \<Rightarrow> Inl (err, s')
                        | Inr f \<Rightarrow> Inr (s'\<lparr>m_flipper := f\<rparr>)))))"

text \<open>What a caller can do with a sampler, and a sequence of such calls; a sequence
  ends at the first call that throws. \<^verbatim>\<open>Read\<close> returns views of the configuration
  and of the cached vector and changes nothing.\<close>

datatype operation = Reset | Step | ReadState

definition apply_operation ::
  "double_arith \<Rightarrow> Machine \<Rightarrow> operation \<Rightarrow> MetropolisLocalV2
     \<Rightarrow> (error \<times> MetropolisLocalV2) + MetropolisLocalV2" where
  "apply_operation fp machine opn s =
     (case opn of
        Reset \<Rightarrow> MetropolisLocalV2_Reset machine s
      | Step \<Rightarrow> MetropolisLocalV2_Next fp machine s
      | ReadState \<Rightarrow> Inr s)"

fun run ::
  "double_arith \<Rightarrow> Machine \<Rightarrow> operation list \<Rightarrow> MetropolisLocalV2
     \<Rightarrow> (error \<times> MetropolisLocalV2) + MetropolisLocalV2" where
  "run fp machine [] s = Inr s"
| "run fp machine (opn # opns) s =
     (case apply_operation fp machine opn s of
        Inl err \<Rightarrow> Inl err
      | Inr s' \<Rightarrow> run fp machine opns s')"

subsection \<open>Auxiliary notions for the proofs\<close>

text \<open>Both loops that write one cell in each row (\<^verbatim>\<open>Flipper::Next\<close> for the
  accepted chains, \<^verbatim>\<open>Flipper::Read(x)\<close> for all of them) are instances of one
  loop.\<close>

definition write_rows :: "(nat \<Rightarrow> bool) \<Rightarrow> (nat \<Rightarrow> nat) \<Rightarrow> (nat \<Rightarrow> real) \<Rightarrow> nat \<Rightarrow> RowMatrix \<Rightarrow> RowMatrix" where
  "write_rows P s v n st =
     fold (\<lambda>j st. if P j then set_coeff st j (s j) (v j) else st) [0..<n] st"

text \<open>The shape of a well-formed chain state: the buffers have the sizes the
  constructor gave them, every proposed site is a column, and the configuration and
  the proposed values are taken from the alphabet.\<close>

definition Flipper_inv :: "Flipper \<Rightarrow> bool" where
  "Flipper_inv f \<longleftrightarrow>
     length (data (m_state f)) = BatchSize f * SystemSize f
     \<and> length (m_sites f) = BatchSize f
     \<and> length (m_values f) = BatchSize f
     \<and> (\<forall>x \<in> set (m_sites f). x < SystemSize f)
     \<and> set (data (m_state f)) \<subseteq> set (m_local_states f)
     \<and> set (m_values f) \<subseteq> set (m_local_states f)"

definition MetropolisLocalV2_inv :: "MetropolisLocalV2 \<Rightarrow> bool" where
  "MetropolisLocalV2_inv s \<longleftrightarrow>
     Flipper_inv (m_flipper s)
     \<and> length (m_current_Y s) = BatchSize (m_flipper s)
     \<and> rows (m_proposed_X s) = BatchSize (m_flipper s)
     \<and> cols (m_proposed_X s) = SystemSize (m_flipper s)
     \<and> length (m_randoms s) = BatchSize (m_flipper s)"

text \<open>The oracle fills a vector that has one entry for each row of its argument.\<close>

definition oracle_shape :: "Machine \<Rightarrow> bool" where
  "oracle_shape machine \<longleftrightarrow> (\<forall>X Y. LogVal machine X = Inr Y \<longrightarrow> length Y = rows X)"

text \<open>The acceptance probability in the words of the specification:
  \<open>min(1, exp(2 \<cdot> Re(proposed - current)))\<close>.\<close>

definition spec_acceptance_probability :: "complex \<Rightarrow> complex \<Rightarrow> real" where
  "spec_acceptance_probability proposed current = min 1 (exp (2 * Re (proposed - current)))"

text \<open>Invariant I2: the cached vector holds, for each chain, the log-amplitude of
  its row.\<close>

definition cache_consistent :: "(real list \<Rightarrow> complex) \<Rightarrow> MetropolisLocalV2 \<Rightarrow> bool" where
  "cache_consistent amplitude s \<longleftrightarrow>
     m_current_Y s = map amplitude (rows_of (m_state (m_flipper s)))"

text \<open>Invariant I3: no chain proposes the value its proposed site has already.\<close>

definition no_self_transition :: "Flipper \<Rightarrow> bool" where
  "no_self_transition f \<longleftrightarrow>
     (\<forall>j < BatchSize f. m_values f ! j \<noteq> coeff (m_state f) j (m_sites f ! j))"

subsection \<open>Concrete samplers\<close>

text \<open>The arithmetic of the examples is exact but for the underflow.\<close>

definition example_arith :: double_arith where
  "example_arith = Abs_double_arith (flush_to_zero, exp)"

text \<open>One chain, one site, the alphabet \<open>{-1, 1}\<close> given unsorted, an oracle that
  is constantly zero and an engine whose raw numbers are all zero.\<close>

definition example_machine :: Machine where
  "example_machine = \<lparr>Nvisible = 1, LocalStates = [1, - 1],
                       LogVal = (\<lambda>X. Inr (replicate (rows X) 0))\<rparr>"

definition example_initial :: MetropolisLocalV2 where
  "example_initial =
     \<lparr>m_flipper = \<lparr>m_sites = [0], m_values = [1],
                   m_state = \<lparr>rows = 1, cols = 1, data = [- 1]\<rparr>,
                   m_local_states = [- 1, 1], m_engine = (\<lambda>n. 0)\<rparr>,
      m_proposed_X = \<lparr>rows = 1, cols = 1, data = [0]\<rparr>,
      m_proposed_Y = [0], m_current_Y = [0], m_randoms = [0], m_accept = [False]\<rparr>"

definition example_accepted :: MetropolisLocalV2 where
  "example_accepted =
     \<lparr>m_flipper = \<lparr>m_sites = [0], m_values = [- 1],
                   m_state = \<lparr>rows = 1, cols = 1, data = [1]\<rparr>,
                   m_local_states = [- 1, 1], m_engine = (\<lambda>n. 0)\<rparr>,
      m_proposed_X = \<lparr>rows = 1, cols = 1, data = [1]\<rparr>,
      m_proposed_Y = [0], m_current_Y = [0], m_randoms = [0], m_accept = [True]\<rparr>"

text \<open>An oracle that depends on the configuration: log-amplitude \<open>-400\<close> for a row
  that holds a \<open>-1\<close>, and 0 for the others. The sampler built on it starts in the
  low row; its first step moves to the high row, which gives \<open>example_accepted\<close>.\<close>

definition example_amplitude :: "real list \<Rightarrow> complex" where
  "example_amplitude r = (if - 1 \<in> set r then - 400 else 0)"

definition example_biased :: Machine where
  "example_biased = \<lparr>Nvisible = 1, LocalStates = [- 1, 1],
                      LogVal = (\<lambda>X. Inr (map example_amplitude (rows_of X)))\<rparr>"

definition example_low :: MetropolisLocalV2 where
  "example_low =
     \<lparr>m_flipper = \<lparr>m_sites = [0], m_values = [1],
                   m_state = \<lparr>rows = 1, cols = 1, data = [- 1]\<rparr>,
                   m_local_states = [- 1, 1], m_engine = (\<lambda>n. 0)\<rparr>,
      m_proposed_X = \<lparr>rows = 1, cols = 1, data = [0]\<rparr>,
      m_proposed_Y = [0], m_current_Y = [- 400], m_randoms = [0], m_accept = [False]\<rparr>"




text \<open>A machine whose oracle always throws.\<close>

definition example_throwing :: Machine where
  "example_throwing = \<lparr>Nvisible = 1, LocalStates = [- 1, 1],
                        LogVal = (\<lambda>X. Inl (OracleError 7))\<rparr>"

section \<open>The proposal value\<close>

subsection \<open>Sorted alphabets, draws and the index shift\<close>

lemma nth_le_iff:
  fixes ls :: "real list"
  assumes "sorted ls" "distinct ls" "i < length ls" "j < length ls"
  shows "(ls ! i \<le> ls ! j) = (i \<le> j)"
proof
  assume le: "ls ! i \<le> ls ! j"
  show "i \<le> j"
  proof (rule ccontr)
    assume "\<not> i \<le> j"
    then have ji: "j < i" by simp
    then have "ls ! j \<le> ls ! i" using assms by (simp add: sorted_nth_mono)
    with le have "ls ! i = ls ! j" by simp
    then have "i = j" using assms by (simp add: nth_eq_iff_index_eq)
    with ji show False by simp
  qed
next
  assume "i \<le> j"
  then show "ls ! i \<le> ls ! j" using assms by (simp add: sorted_nth_mono)
qed

lemma proposal_value_shift:
  assumes "sorted ls" "distinct ls" "c < length ls" "idx + 1 < length ls"
  shows "proposal_value ls (ls ! c) idx = ls ! (if c \<le> idx then idx + 1 else idx)"
  using assms nth_le_iff [of ls c idx] by (simp add: proposal_value_def)

lemma proposal_value_inj:
  assumes "sorted ls" "distinct ls" "c < length ls"
  shows "inj_on (proposal_value ls (ls ! c)) {idx. idx + 1 < length ls}"
proof (rule inj_onI)
  fix x y
  assume x: "x \<in> {idx. idx + 1 < length ls}" and y: "y \<in> {idx. idx + 1 < length ls}"
    and eq: "proposal_value ls (ls ! c) x = proposal_value ls (ls ! c) y"
  from x y have xl: "x + 1 < length ls" and yl: "y + 1 < length ls" by simp_all
  from eq have "ls ! (if c \<le> x then x + 1 else x) = ls ! (if c \<le> y then y + 1 else y)"
    using assms xl yl by (simp only: proposal_value_shift)
  then have "(if c \<le> x then x + 1 else x) = (if c \<le> y then y + 1 else y)"
    using assms(2) xl yl by (simp add: nth_eq_iff_index_eq)
  then show "x = y" by (simp split: if_splits)
qed

lemma proposal_value_image:
  assumes "sorted ls" "distinct ls" "c < length ls"
  shows "proposal_value ls (ls ! c) ` {idx. idx + 1 < length ls} = set ls - {ls ! c}"
proof (intro equalityI subsetI)
  fix v
  assume "v \<in> proposal_value ls (ls ! c) ` {idx. idx + 1 < length ls}"
  then obtain idx where idx: "idx + 1 < length ls" and v: "v = proposal_value ls (ls ! c) idx"
    by auto
  let ?i = "if c \<le> idx then idx + 1 else idx"
  have vi: "v = ls ! ?i" using v assms idx by (simp only: proposal_value_shift)
  have "?i < length ls" "?i \<noteq> c" using idx by simp_all
  then have "ls ! ?i \<in> set ls" "ls ! ?i \<noteq> ls ! c"
    using assms by (simp_all add: nth_eq_iff_index_eq)
  with vi show "v \<in> set ls - {ls ! c}" by simp
next
  fix v
  assume "v \<in> set ls - {ls ! c}"
  then obtain i where i: "i < length ls" "v = ls ! i" "i \<noteq> c"
    by (auto simp: in_set_conv_nth)
  let ?idx = "if i < c then i else i - 1"
  have r: "?idx + 1 < length ls" using i assms(3) by auto
  have "(if c \<le> ?idx then ?idx + 1 else ?idx) = i" using i by auto
  then have "proposal_value ls (ls ! c) ?idx = v"
    using proposal_value_shift [OF assms r] i by simp
  with r show "v \<in> proposal_value ls (ls ! c) ` {idx. idx + 1 < length ls}" by blast
qed

lemma static_cast_int_le: "static_cast_int n \<le> int n"
proof -
  have "(int n + 2 ^ 31) mod 2 ^ 32 \<le> int n + 2 ^ 31"
    by (rule zmod_le_nonneg_dividend) simp
  then show ?thesis by (simp add: static_cast_int_def)
qed

lemma uniform_int_distribution_range:
  "uniform_int_distribution a b e = Inr (v, e') \<Longrightarrow> a \<le> v \<and> v \<le> b"
proof -
  assume h: "uniform_int_distribution a b e = Inr (v, e')"
  then have ab: "a \<le> b" and v: "v = a + int (e 0 mod nat (b - a + 1))"
    by (auto simp: uniform_int_distribution_def split: if_splits)
  from ab have "e 0 mod nat (b - a + 1) < nat (b - a + 1)" by simp
  with ab v show ?thesis by linarith
qed

lemma RandomValues_g_result:
  assumes "RandomValues_g f j = Inr (v, e')"
  shows "\<exists>idx. idx + 1 < length (m_local_states f) \<and>
           v = proposal_value (m_local_states f) (coeff (m_state f) j (m_sites f ! j)) idx"
proof -
  from assms obtain i where
    d: "uniform_int_distribution 0 (static_cast_int (length (m_local_states f)) - 2) (m_engine f) = Inr (i, e')"
    and v: "v = proposal_value (m_local_states f) (coeff (m_state f) j (m_sites f ! j)) (nat i)"
    by (auto simp: RandomValues_g_def and_then_def split: sum.splits)
  from uniform_int_distribution_range [OF d] static_cast_int_le [of "length (m_local_states f)"]
  have "nat i + 1 < length (m_local_states f)" by linarith
  with v show ?thesis by blast
qed

text \<open>
  Claim C1. Let the alphabet be sorted ascending and free of duplicates, of size
  \<open>k \<ge> 2\<close>, and let the current value at the proposed site be one of its members.
  Then \<open>idx \<mapsto> alphabet[idx + (alphabet[idx] \<ge> current ? 1 : 0)]\<close> is a bijection from
  \<open>{0, \<dots>, k - 2}\<close> onto the alphabet without the current value; so no index gives
  the current value, every other value comes from exactly one index (a uniform index
  gives a uniform value), and the value that \<^verbatim>\<open>g\<close> of \<^verbatim>\<open>RandomValues\<close> draws
  is never the current one.
\<close>

theorem proposal_value_bijection:
  assumes "sorted ls" and "distinct ls" and "2 \<le> length ls" and "current \<in> set ls"
  shows "bij_betw (proposal_value ls current) {0..length ls - 2} (set ls - {current})
       \<and> (\<forall>idx \<in> {0..length ls - 2}. proposal_value ls current idx \<noteq> current)
       \<and> (\<forall>v \<in> set ls - {current}.
            card {idx \<in> {0..length ls - 2}. proposal_value ls current idx = v} = 1)
       \<and> (\<forall>f j v e'. m_local_states f = ls \<and> coeff (m_state f) j (m_sites f ! j) = current
             \<and> RandomValues_g f j = Inr (v, e') \<longrightarrow> v \<in> set ls - {current})"
proof -
  from assms(4) obtain c where c: "c < length ls" "ls ! c = current"
    by (auto simp: in_set_conv_nth)
  have dom: "{0..length ls - 2} = {idx. idx + 1 < length ls}"
    using assms(3) by auto
  have inj: "inj_on (proposal_value ls current) {0..length ls - 2}"
    unfolding dom c(2) [symmetric] by (rule proposal_value_inj [OF assms(1,2) c(1)])
  have img: "proposal_value ls current ` {0..length ls - 2} = set ls - {current}"
    unfolding dom c(2) [symmetric] by (rule proposal_value_image [OF assms(1,2) c(1)])
  have bij: "bij_betw (proposal_value ls current) {0..length ls - 2} (set ls - {current})"
    unfolding bij_betw_def using inj img by (rule conjI)
  have ne: "proposal_value ls current idx \<noteq> current" if "idx \<in> {0..length ls - 2}" for idx
  proof -
    from that have "proposal_value ls current idx \<in> set ls - {current}"
      unfolding img [symmetric] by (rule imageI)
    then show ?thesis by simp
  qed
  have one: "card {idx \<in> {0..length ls - 2}. proposal_value ls current idx = v} = 1"
    if v: "v \<in> set ls - {current}" for v
  proof -
    from v obtain i where i: "i \<in> {0..length ls - 2}" "proposal_value ls current i = v"
      unfolding img [symmetric] by (elim imageE) simp
    have "idx = i" if "idx \<in> {0..length ls - 2}" "proposal_value ls current idx = v" for idx
      using inj_onD [OF inj _ that(1) i(1)] that(2) i(2) by simp
    with i have "{idx \<in> {0..length ls - 2}. proposal_value ls current idx = v} = {i}"
      by blast
    then show ?thesis by simp
  qed
  have drawn: "v \<in> set ls - {current}"
    if h: "m_local_states f = ls \<and> coeff (m_state f) j (m_sites f ! j) = current
             \<and> RandomValues_g f j = Inr (v, e')" for f j v e'
  proof -
    from h have g: "RandomValues_g f j = Inr (v, e')" by simp
    from RandomValues_g_result [OF g] h obtain idx where
      idx: "idx + 1 < length ls" "v = proposal_value ls current idx" by auto
    from idx(1) have "idx \<in> {0..length ls - 2}" unfolding dom by simp
    then have "proposal_value ls current idx \<in> set ls - {current}"
      unfolding img [symmetric] by (rule imageI)
    with idx(2) show ?thesis by simp
  qed
  show ?thesis
  proof (intro conjI ballI allI impI)
    show "bij_betw (proposal_value ls current) {0..length ls - 2} (set ls - {current})"
      by (rule bij)
  next
    fix idx assume "idx \<in> {0..length ls - 2}"
    then show "proposal_value ls current idx \<noteq> current" by (rule ne)
  next
    fix v assume "v \<in> set ls - {current}"
    then show "card {idx \<in> {0..length ls - 2}. proposal_value ls current idx = v} = 1"
      by (rule one)
  next
    fix f j v e'
    assume "m_local_states f = ls \<and> coeff (m_state f) j (m_sites f ! j) = current
             \<and> RandomValues_g f j = Inr (v, e')"
    then show "v \<in> set ls - {current}" by (rule drawn)
  qed
qed

theorem proposal_value_bijection_witness:
  "sorted [- 1, 1 :: real] \<and> distinct [- 1, 1 :: real] \<and> 2 \<le> length [- 1, 1 :: real]
   \<and> (1 :: real) \<in> set [- 1, 1]
   \<and> bij_betw (proposal_value [- 1, 1] 1) {0..0} {- 1}
   \<and> proposal_value [- 1, 1] 1 0 \<noteq> 1
   \<and> card {idx \<in> {0..0}. proposal_value [- 1, 1] 1 idx = - 1} = 1
   \<and> RandomValues_g
        \<lparr>m_sites = [0], m_values = [0], m_state = \<lparr>rows = 1, cols = 1, data = [1]\<rparr>,
         m_local_states = [- 1, 1], m_engine = (\<lambda>n. 0)\<rparr> 0 = Inr (- 1, (\<lambda>n. 0))"
proof -
  have h1: "sorted [- 1, 1 :: real]" by simp
  have h2: "distinct [- 1, 1 :: real]" by simp
  have h3: "2 \<le> length [- 1, 1 :: real]" by simp
  have h4: "(1 :: real) \<in> set [- 1, 1]" by simp
  have g: "RandomValues_g
        \<lparr>m_sites = [0], m_values = [0], m_state = \<lparr>rows = 1, cols = 1, data = [1]\<rparr>,
         m_local_states = [- 1, 1], m_engine = (\<lambda>n. 0)\<rparr> 0 = Inr (- 1, (\<lambda>n. 0))"
    by (simp add: RandomValues_g_def and_then_def uniform_int_distribution_def
        static_cast_int_def proposal_value_def coeff_def advance_def)
  have s: "set [- 1, 1 :: real] - {1} = {- 1}" by auto
  from proposal_value_bijection [OF h1 h2 h3 h4] h1 h2 h3 h4 g show ?thesis
    unfolding s by simp
qed

section \<open>Writing one cell in each row\<close>

lemma write_rows_0: "write_rows P s v 0 st = st"
  by (simp add: write_rows_def)

lemma write_rows_Suc:
  "write_rows P s v (Suc n) st =
     (if P n then set_coeff (write_rows P s v n st) n (s n) (v n) else write_rows P s v n st)"
  by (simp add: write_rows_def)

lemma set_coeff_shape:
  "rows (set_coeff m j s v) = rows m" "cols (set_coeff m j s v) = cols m"
  "length (data (set_coeff m j s v)) = length (data m)"
  by (simp_all add: set_coeff_def)

lemma write_rows_shape:
  "rows (write_rows P s v n st) = rows st \<and> cols (write_rows P s v n st) = cols st
   \<and> length (data (write_rows P s v n st)) = length (data st)"
  by (induction n) (simp_all add: write_rows_0 write_rows_Suc set_coeff_shape)

lemma set_coeff_data_subset: "set (data (set_coeff m j s v)) \<subseteq> insert v (set (data m))"
  by (simp add: set_coeff_def set_update_subset_insert)

lemma write_rows_data_subset:
  "set (data (write_rows P s v n st)) \<subseteq> set (data st) \<union> v ` {j. j < n}"
proof (induction n)
  case 0
  then show ?case by (simp add: write_rows_0)
next
  case (Suc n)
  have m: "set (data st) \<union> v ` {j. j < n} \<subseteq> set (data st) \<union> v ` {j. j < Suc n}"
    by auto
  have i: "insert (v n) (set (data st) \<union> v ` {j. j < n}) \<subseteq> set (data st) \<union> v ` {j. j < Suc n}"
    by auto
  show ?case
  proof (cases "P n")
    case True
    have "set (data (set_coeff (write_rows P s v n st) n (s n) (v n)))
            \<subseteq> insert (v n) (set (data (write_rows P s v n st)))"
      by (rule set_coeff_data_subset)
    also have "\<dots> \<subseteq> insert (v n) (set (data st) \<union> v ` {j. j < n})"
      using Suc by (rule insert_mono)
    also note i
    finally show ?thesis using True by (simp add: write_rows_Suc)
  next
    case False
    from Suc m have "set (data (write_rows P s v n st)) \<subseteq> set (data st) \<union> v ` {j. j < Suc n}"
      by (rule subset_trans)
    with False show ?thesis by (simp add: write_rows_Suc)
  qed
qed

lemma row_set_coeff:
  assumes "s < cols m"
  shows "row (set_coeff m n s v) j = (if j = n then (row m j)[s := v] else row m j)"
proof -
  let ?c = "cols m"
  consider "j < n" | "j = n" | "n < j" by linarith
  then show ?thesis
  proof cases
    case 1
    then have "Suc j \<le> n" by simp
    then have "Suc j * ?c \<le> n * ?c" by (rule mult_le_mono1)
    then have le: "j * ?c \<le> n * ?c + s" and ge: "?c \<le> n * ?c + s - j * ?c" by simp_all
    show ?thesis using 1 ge
      by (simp add: row_def set_coeff_def drop_update_swap [OF le] take_update_cancel)
  next
    case 2
    then show ?thesis
      by (simp add: row_def set_coeff_def drop_update_swap take_update_swap)
  next
    case 3
    then have "Suc n \<le> j" by simp
    then have "Suc n * ?c \<le> j * ?c" by (rule mult_le_mono1)
    with assms have "n * ?c + s < j * ?c" by simp
    then show ?thesis using 3
      by (simp add: row_def set_coeff_def drop_update_cancel)
  qed
qed

lemma write_rows_row:
  assumes "\<forall>j < n. s j < cols st"
  shows "row (write_rows P s v n st) j =
           (if j < n \<and> P j then (row st j)[s j := v j] else row st j)"
  using assms
proof (induction n)
  case 0
  then show ?case by (simp add: write_rows_0)
next
  case (Suc n)
  then have IH: "row (write_rows P s v n st) j =
           (if j < n \<and> P j then (row st j)[s j := v j] else row st j)" by simp
  from Suc.prems have sn: "s n < cols (write_rows P s v n st)"
    by (simp add: write_rows_shape)
  show ?case
  proof (cases "j = n")
    case True
    with IH have "row (write_rows P s v n st) n = row st n" by simp
    with True show ?thesis by (simp add: write_rows_Suc row_set_coeff [OF sn])
  next
    case False
    then have "(j < Suc n) = (j < n)" by auto
    with False show ?thesis by (simp add: write_rows_Suc row_set_coeff [OF sn] IH)
  qed
qed

lemma commit_write_rows:
  "commit f accept = write_rows (\<lambda>j. accept ! j) (\<lambda>j. m_sites f ! j) (\<lambda>j. m_values f ! j)
                       (BatchSize f) (m_state f)"
  by (simp add: commit_def write_rows_def)

lemma Flipper_Read_nth:
  "j < BatchSize f \<Longrightarrow>
     Flipper_Read f ! j = \<lparr>diff_sites = [m_sites f ! j], diff_values = [m_values f ! j]\<rparr>"
  by (simp add: Flipper_Read_def)

lemma Flipper_Read_into_write_rows:
  "Flipper_Read_into f x =
     (if \<not> (rows x = BatchSize f \<and> cols x = SystemSize f) then Inl AssertionFailed
      else Inr (write_rows (\<lambda>j. True) (\<lambda>j. m_sites f ! j) (\<lambda>j. m_values f ! j)
                  (BatchSize f) (m_state f)))"
proof -
  have "fold (\<lambda>j x'. let suggestion = Flipper_Read f ! j
                      in set_coeff x' j (diff_sites suggestion ! 0) (diff_values suggestion ! 0))
          [0..<BatchSize f] (m_state f)
        = fold (\<lambda>j x'. set_coeff x' j (m_sites f ! j) (m_values f ! j))
          [0..<BatchSize f] (m_state f)"
    by (rule fold_cong) (simp_all add: Flipper_Read_nth)
  then show ?thesis by (simp add: Flipper_Read_into_def write_rows_def)
qed

lemma row_length:
  "Suc j * cols m \<le> length (data m) \<Longrightarrow> length (row m j) = cols m"
  by (simp add: row_def)

lemma row_nth:
  "s < cols m \<Longrightarrow> j * cols m + s < length (data m) \<Longrightarrow> row m j ! s = coeff m j s"
  by (simp add: row_def coeff_def)

lemma index_in_range:
  assumes "j < b" "s < c"
  shows "j * c + s < b * (c::nat)" "Suc j * c \<le> b * c"
proof -
  from assms(1) have "Suc j \<le> b" by simp
  then show le: "Suc j * c \<le> b * c" by (rule mult_le_mono1)
  with assms(2) show "j * c + s < b * c" by simp
qed

lemma write_rows_coeff:
  assumes len: "length (data st) = n * cols st"
    and s: "\<forall>j < n. s j < cols st"
    and j: "j < n" and s': "s' < cols st"
  shows "coeff (write_rows P s v n st) j s' =
           (if P j \<and> s' = s j then v j else coeff st j s')"
proof -
  let ?w = "write_rows P s v n st"
  have shape: "cols ?w = cols st" "length (data ?w) = length (data st)"
    by (simp_all add: write_rows_shape)
  have r: "j * cols st + s' < length (data st)" "Suc j * cols st \<le> length (data st)"
    using index_in_range [OF j s'] len by simp_all
  have "coeff ?w j s' = row ?w j ! s'"
    using row_nth [of s' ?w j] s' r shape by simp
  also have "\<dots> = (if P j then (row st j)[s j := v j] else row st j) ! s'"
    using write_rows_row [OF s, of P v j] j by simp
  also have "\<dots> = (if P j \<and> s' = s j then v j else row st j ! s')"
    using row_length [OF r(2)] s' by (simp add: nth_list_update)
  also have "row st j ! s' = coeff st j s'"
    using row_nth [OF s' r(1)] .
  finally show ?thesis .
qed

text \<open>
  Claim C8. Given an output buffer of the shape of the batch, \<^verbatim>\<open>Flipper::Read(x)\<close>
  fills it so that row \<open>j\<close> is row \<open>j\<close> of the current configuration with the
  proposed value at the proposed site: no other entry differs. The method is const,
  and the model returns nothing but the buffer, so the chain state is as it was.
\<close>

theorem Flipper_Read_into_materializes:
  assumes "rows x = BatchSize f" and "cols x = SystemSize f"
    and "length (data (m_state f)) = BatchSize f * SystemSize f"
    and "\<forall>j < BatchSize f. m_sites f ! j < SystemSize f"
  shows "\<exists>x'. Flipper_Read_into f x = Inr x'
           \<and> rows x' = BatchSize f \<and> cols x' = SystemSize f
           \<and> length (data x') = BatchSize f * SystemSize f
           \<and> (\<forall>j < BatchSize f.
                 row x' j = (row (m_state f) j)[m_sites f ! j := m_values f ! j])
           \<and> (\<forall>j < BatchSize f. \<forall>s < SystemSize f.
                 coeff x' j s = (if s = m_sites f ! j then m_values f ! j
                                 else coeff (m_state f) j s))"
proof -
  let ?x' = "write_rows (\<lambda>j. True) (\<lambda>j. m_sites f ! j) (\<lambda>j. m_values f ! j)
               (BatchSize f) (m_state f)"
  have res: "Flipper_Read_into f x = Inr ?x'"
    using assms(1,2) by (simp add: Flipper_Read_into_write_rows)
  have shape: "rows ?x' = BatchSize f" "cols ?x' = SystemSize f"
    "length (data ?x') = BatchSize f * SystemSize f"
    using assms(3) by (simp_all add: write_rows_shape BatchSize_def SystemSize_def)
  have sites: "\<forall>j < BatchSize f. m_sites f ! j < cols (m_state f)"
    using assms(4) by (simp add: SystemSize_def)
  have len: "length (data (m_state f)) = BatchSize f * cols (m_state f)"
    using assms(3) by (simp add: SystemSize_def)
  have rw: "row ?x' j = (row (m_state f) j)[m_sites f ! j := m_values f ! j]"
    if "j < BatchSize f" for j
    using write_rows_row [OF sites, of "\<lambda>j. True" "\<lambda>j. m_values f ! j" j] that by simp
  have cf: "coeff ?x' j s = (if s = m_sites f ! j then m_values f ! j
                                 else coeff (m_state f) j s)"
    if "j < BatchSize f" "s < SystemSize f" for j s
    using write_rows_coeff [OF len sites that(1), of s "\<lambda>j. True" "\<lambda>j. m_values f ! j"] that(2)
    by (simp add: SystemSize_def)
  show ?thesis
  proof (intro exI conjI allI impI)
    show "Flipper_Read_into f x = Inr ?x'" by (rule res)
  qed (simp_all add: shape rw cf)
qed

theorem Flipper_Read_into_materializes_witness:
  "rows \<lparr>rows = 2, cols = 2, data = [0, 0, 0, 0]\<rparr>
     = BatchSize \<lparr>m_sites = [1, 0], m_values = [1, - 1],
                  m_state = \<lparr>rows = 2, cols = 2, data = [- 1, - 1, 1, 1]\<rparr>,
                  m_local_states = [- 1, 1], m_engine = (\<lambda>n. 0)\<rparr>
   \<and> Flipper_Read_into
        \<lparr>m_sites = [1, 0], m_values = [1, - 1],
         m_state = \<lparr>rows = 2, cols = 2, data = [- 1, - 1, 1, 1]\<rparr>,
         m_local_states = [- 1, 1], m_engine = (\<lambda>n. 0)\<rparr>
        \<lparr>rows = 2, cols = 2, data = [0, 0, 0, 0]\<rparr>
       = Inr \<lparr>rows = 2, cols = 2, data = [- 1, 1, - 1, 1]\<rparr>"
proof -
  let ?f = "\<lparr>m_sites = [1, 0], m_values = [1, - 1],
         m_state = \<lparr>rows = 2, cols = 2, data = [- 1, - 1, 1, 1]\<rparr>,
         m_local_states = [- 1, 1], m_engine = (\<lambda>n. 0)\<rparr>"
  let ?x = "\<lparr>rows = 2, cols = 2, data = [0, 0, 0, 0]\<rparr>"
  have h1: "rows ?x = BatchSize ?f" by (simp add: BatchSize_def)
  have h2: "cols ?x = SystemSize ?f" by (simp add: SystemSize_def)
  have h3: "length (data (m_state ?f)) = BatchSize ?f * SystemSize ?f"
    by (simp add: BatchSize_def SystemSize_def)
  have h4: "\<forall>j < BatchSize ?f. m_sites ?f ! j < SystemSize ?f"
    by (simp add: BatchSize_def SystemSize_def less_Suc_eq numeral_2_eq_2)
  have ev: "Flipper_Read_into ?f ?x = Inr \<lparr>rows = 2, cols = 2, data = [- 1, 1, - 1, 1]\<rparr>"
    by (simp add: Flipper_Read_into_def Flipper_Read_def BatchSize_def SystemSize_def
        set_coeff_def upt_rec numeral_2_eq_2)
  from Flipper_Read_into_materializes [OF h1 h2 h3 h4] h1 ev show ?thesis by simp
qed

section \<open>The invariants of the chain state and of the sampler\<close>

subsection \<open>What the random draws leave behind\<close>

lemma and_then_Inr:
  "and_then r k = Inr y \<longleftrightarrow> (\<exists>x. r = Inr x \<and> k x = Inr y)"
  by (cases r) (simp_all add: and_then_def)

lemma generate_Inr:
  assumes "generate n gen e = Inr (xs, e')"
    and "\<And>e v e'. gen e = Inr (v, e') \<Longrightarrow> P v"
  shows "length xs = n \<and> (\<forall>x \<in> set xs. P x)"
  using assms(1)
proof (induction n arbitrary: e xs)
  case 0
  then show ?case by simp
next
  case (Suc n)
  from Suc.prems obtain v e1 vs where g: "gen e = Inr (v, e1)"
    and r: "generate n gen e1 = Inr (vs, e')" and xs: "xs = v # vs"
    by (auto split: sum.splits prod.splits)
  from Suc.IH [OF r] assms(2) [OF g] xs show ?case by simp
qed

lemma generate_total:
  assumes "\<And>e. \<exists>v e'. gen e = Inr (v, e')"
  shows "\<exists>xs e'. generate n gen e = Inr (xs, e')"
proof (induction n arbitrary: e)
  case 0
  then show ?case by simp
next
  case (Suc n)
  from assms obtain v e1 where g: "gen e = Inr (v, e1)" by blast
  from Suc obtain vs e2 where "generate n gen e1 = Inr (vs, e2)" by blast
  with g show ?case by simp
qed

lemma RandomState_effect:
  assumes "RandomState f = Inr f'"
  shows "m_sites f' = m_sites f \<and> m_values f' = m_values f
       \<and> m_local_states f' = m_local_states f
       \<and> rows (m_state f') = rows (m_state f) \<and> cols (m_state f') = cols (m_state f)
       \<and> length (data (m_state f')) = rows (m_state f) * cols (m_state f)
       \<and> set (data (m_state f')) \<subseteq> set (m_local_states f)"
proof -
  let ?gen = "\<lambda>e. and_then
                  (uniform_int_distribution 0
                     (static_cast_int (length (m_local_states f)) - 1) e)
                  (\<lambda>(i, e'). Inr (m_local_states f ! nat i, e'))"
  from assms obtain xs e' where
    g: "generate (rows (m_state f) * cols (m_state f)) ?gen (m_engine f) = Inr (xs, e')"
    and f': "f' = f\<lparr>m_state := (m_state f)\<lparr>data := xs\<rparr>, m_engine := e'\<rparr>"
    by (auto simp: RandomState_def and_then_Inr)
  have mem: "v \<in> set (m_local_states f)" if "?gen e = Inr (v, e1)" for e v e1
  proof -
    from that obtain i where
      d: "uniform_int_distribution 0 (static_cast_int (length (m_local_states f)) - 1) e = Inr (i, e1)"
      and v: "v = m_local_states f ! nat i"
      by (auto simp: and_then_Inr)
    from uniform_int_distribution_range [OF d] static_cast_int_le [of "length (m_local_states f)"]
    have "nat i < length (m_local_states f)" by linarith
    with v show ?thesis by simp
  qed
  have "length xs = rows (m_state f) * cols (m_state f)
          \<and> (\<forall>x \<in> set xs. x \<in> set (m_local_states f))"
    by (rule generate_Inr [OF g]) (rule mem)
  then have "length xs = rows (m_state f) * cols (m_state f)" "set xs \<subseteq> set (m_local_states f)"
    by auto
  with f' show ?thesis by simp
qed

lemma RandomSites_effect:
  assumes "RandomSites f = Inr f'"
  shows "m_state f' = m_state f \<and> m_values f' = m_values f
       \<and> m_local_states f' = m_local_states f
       \<and> length (m_sites f') = length (m_sites f)
       \<and> (\<forall>x \<in> set (m_sites f'). x < SystemSize f)"
proof -
  let ?gen = "\<lambda>e. and_then
                  (uniform_int_distribution 0 (int (SystemSize f) - 1) e)
                  (\<lambda>(i, e'). Inr (nat i, e'))"
  from assms obtain xs e' where
    g: "generate (length (m_sites f)) ?gen (m_engine f) = Inr (xs, e')"
    and f': "f' = f\<lparr>m_sites := xs, m_engine := e'\<rparr>"
    by (auto simp: RandomSites_def and_then_Inr)
  have mem: "v < SystemSize f" if "?gen e = Inr (v, e1)" for e v e1
  proof -
    from that obtain i where
      d: "uniform_int_distribution 0 (int (SystemSize f) - 1) e = Inr (i, e1)"
      and v: "v = nat i"
      by (auto simp: and_then_Inr)
    from uniform_int_distribution_range [OF d] v show ?thesis by linarith
  qed
  have "length xs = length (m_sites f) \<and> (\<forall>x \<in> set xs. x < SystemSize f)"
    by (rule generate_Inr [OF g]) (rule mem)
  with f' show ?thesis by simp
qed

lemma RandomValues_loop_effect:
  assumes "RandomValues_loop js f = Inr f'"
  shows "m_state f' = m_state f \<and> m_sites f' = m_sites f
       \<and> m_local_states f' = m_local_states f
       \<and> length (m_values f') = length (m_values f)
       \<and> (\<forall>j. j \<notin> set js \<longrightarrow> m_values f' ! j = m_values f ! j)
       \<and> (\<forall>j \<in> set js. j < length (m_values f) \<longrightarrow>
            (\<exists>idx. idx + 1 < length (m_local_states f) \<and>
               m_values f' ! j =
                 proposal_value (m_local_states f) (coeff (m_state f) j (m_sites f ! j)) idx))"
  using assms
proof (induction js arbitrary: f)
  case Nil
  then show ?case by simp
next
  case (Cons k js)
  from Cons.prems obtain v e1 where g: "RandomValues_g f k = Inr (v, e1)"
    and r: "RandomValues_loop js (f\<lparr>m_values := (m_values f)[k := v], m_engine := e1\<rparr>) = Inr f'"
    by (auto simp: and_then_Inr)
  let ?f1 = "f\<lparr>m_values := (m_values f)[k := v], m_engine := e1\<rparr>"
  note IH = Cons.IH [OF r]
  from RandomValues_g_result [OF g] obtain idx where
    idx: "idx + 1 < length (m_local_states f)"
      "v = proposal_value (m_local_states f) (coeff (m_state f) k (m_sites f ! k)) idx"
    by blast
  have frame: "m_values f' ! j = m_values f ! j" if "j \<notin> set (k # js)" for j
  proof -
    from that have "j \<notin> set js" "j \<noteq> k" by auto
    with IH show ?thesis by simp
  qed
  have drawn: "\<exists>idx. idx + 1 < length (m_local_states f) \<and>
               m_values f' ! j =
                 proposal_value (m_local_states f) (coeff (m_state f) j (m_sites f ! j)) idx"
    if j: "j \<in> set (k # js)" "j < length (m_values f)" for j
  proof (cases "j \<in> set js")
    case True
    with IH j(2) show ?thesis by simp
  next
    case False
    with j have jk: "j = k" by simp
    from False IH have "m_values f' ! j = m_values ?f1 ! j" by blast
    with jk j(2) have "m_values f' ! j = v" by simp
    with idx jk show ?thesis by blast
  qed
  from IH frame drawn show ?case by simp
qed

lemma proposal_value_mem:
  "idx + 1 < length ls \<Longrightarrow> proposal_value ls c idx \<in> set ls"
  by (simp add: proposal_value_def)

lemma RandomValues_effect:
  assumes "RandomValues f = Inr f'"
  shows "m_state f' = m_state f \<and> m_sites f' = m_sites f
       \<and> m_local_states f' = m_local_states f
       \<and> length (m_values f') = length (m_values f)
       \<and> (\<forall>j < BatchSize f. j < length (m_values f) \<longrightarrow>
            (\<exists>idx. idx + 1 < length (m_local_states f) \<and>
               m_values f' ! j =
                 proposal_value (m_local_states f) (coeff (m_state f) j (m_sites f ! j)) idx))"
  using RandomValues_loop_effect [of "[0..<BatchSize f]" f f'] assms
  by (simp add: RandomValues_def)

lemma RandomValues_values_mem:
  assumes "RandomValues f = Inr f'" and "length (m_values f) = BatchSize f"
  shows "set (m_values f') \<subseteq> set (m_local_states f)"
proof
  fix v assume "v \<in> set (m_values f')"
  then obtain j where j: "j < length (m_values f')" "v = m_values f' ! j"
    by (auto simp: in_set_conv_nth)
  note E = RandomValues_effect [OF assms(1)]
  from j E assms(2) have "j < BatchSize f" "j < length (m_values f)" by simp_all
  with E obtain idx where "idx + 1 < length (m_local_states f)"
    "m_values f' ! j = proposal_value (m_local_states f) (coeff (m_state f) j (m_sites f ! j)) idx"
    by blast
  with j(2) show "v \<in> set (m_local_states f)" by (simp add: proposal_value_mem)
qed

subsection \<open>The chain state stays well-formed\<close>

lemma Flipper_Reset_inv:
  assumes "Flipper_Reset f = Inr f'"
    and "length (m_sites f) = BatchSize f" and "length (m_values f) = BatchSize f"
  shows "Flipper_inv f' \<and> m_local_states f' = m_local_states f
       \<and> BatchSize f' = BatchSize f \<and> SystemSize f' = SystemSize f"
proof -
  from assms(1) obtain f1 f2 where s1: "RandomState f = Inr f1"
    and s2: "RandomSites f1 = Inr f2" and s3: "RandomValues f2 = Inr f'"
    by (auto simp: Flipper_Reset_def and_then_Inr)
  note E1 = RandomState_effect [OF s1]
  note E2 = RandomSites_effect [OF s2]
  note E3 = RandomValues_effect [OF s3]
  have len2: "length (m_values f2) = BatchSize f2"
    using E1 E2 assms(3) by (simp add: BatchSize_def)
  note V = RandomValues_values_mem [OF s3 len2]
  show ?thesis
    using E1 E2 E3 V assms(2,3)
    by (simp add: Flipper_inv_def BatchSize_def SystemSize_def)
qed

lemma commit_shape:
  "rows (commit f acc) = rows (m_state f)" "cols (commit f acc) = cols (m_state f)"
  "length (data (commit f acc)) = length (data (m_state f))"
  by (simp_all add: commit_write_rows write_rows_shape)

lemma commit_data_subset:
  assumes "Flipper_inv f"
  shows "set (data (commit f acc)) \<subseteq> set (m_local_states f)"
proof -
  have "(\<lambda>j. m_values f ! j) ` {j. j < BatchSize f} \<subseteq> set (m_values f)"
    using assms by (auto simp: Flipper_inv_def)
  with write_rows_data_subset [of "\<lambda>j. acc ! j" "\<lambda>j. m_sites f ! j" "\<lambda>j. m_values f ! j"
      "BatchSize f" "m_state f"] assms
  show ?thesis unfolding commit_write_rows Flipper_inv_def by blast
qed

lemma Flipper_Next_inv:
  assumes "Flipper_Next f acc = Inr f'" and "Flipper_inv f"
  shows "Flipper_inv f' \<and> m_local_states f' = m_local_states f
       \<and> BatchSize f' = BatchSize f \<and> SystemSize f' = SystemSize f
       \<and> m_state f' = commit f acc \<and> BatchSize f \<le> length acc"
proof -
  let ?f0 = "f\<lparr>m_state := commit f acc\<rparr>"
  from assms(1) obtain f1 where len: "BatchSize f \<le> length acc"
    and s1: "RandomSites ?f0 = Inr f1" and s2: "RandomValues f1 = Inr f'"
    by (auto simp: Flipper_Next_def and_then_Inr split: if_splits)
  note E1 = RandomSites_effect [OF s1]
  note E2 = RandomValues_effect [OF s2]
  have len1: "length (m_values f1) = BatchSize f1"
    using E1 assms(2) by (simp add: BatchSize_def Flipper_inv_def commit_shape)
  note V = RandomValues_values_mem [OF s2 len1]
  note D = commit_data_subset [OF assms(2), of acc]
  show ?thesis
    using E1 E2 V D len assms(2)
    by (simp add: Flipper_inv_def BatchSize_def SystemSize_def commit_shape)
qed

lemma Flipper_ctor_Inr:
  assumes "Flipper_ctor (b, n) ls e = Inr f"
  shows "Flipper_inv f \<and> m_local_states f = sort ls
       \<and> BatchSize f = nat b \<and> SystemSize f = nat n \<and> 1 \<le> b \<and> 1 \<le> n \<and> ls \<noteq> []"
proof -
  let ?f0 = "\<lparr>m_sites = replicate (nat b) 0, m_values = replicate (nat b) 0,
              m_state = \<lparr>rows = nat b, cols = nat n, data = replicate (nat b * nat n) 0\<rparr>,
              m_local_states = sort ls, m_engine = e\<rparr>"
  from assms have v: "1 \<le> b" "1 \<le> n" "ls \<noteq> []" and r: "Flipper_Reset ?f0 = Inr f"
    by (auto simp: Flipper_ctor_def split: if_splits)
  have "length (m_sites ?f0) = BatchSize ?f0" "length (m_values ?f0) = BatchSize ?f0"
    by (simp_all add: BatchSize_def)
  from Flipper_Reset_inv [OF r this] v show ?thesis
    by (simp add: BatchSize_def SystemSize_def)
qed

subsection \<open>One step of the sampler\<close>

lemma Flipper_Read_into_Inr:
  assumes "Flipper_Read_into f x = Inr x'"
  shows "rows x = BatchSize f \<and> cols x = SystemSize f
       \<and> x' = write_rows (\<lambda>j. True) (\<lambda>j. m_sites f ! j) (\<lambda>j. m_values f ! j)
                (BatchSize f) (m_state f)
       \<and> rows x' = BatchSize f \<and> cols x' = SystemSize f"
  using assms
  by (auto simp: Flipper_Read_into_write_rows write_rows_shape BatchSize_def SystemSize_def
      split: if_splits)

lemma MetropolisLocalV2_Next_Inr:
  assumes "MetropolisLocalV2_Next fp machine s = Inr s'"
  shows "\<exists>X Y rs e' f'.
           Flipper_Read_into (m_flipper s) (m_proposed_X s) = Inr X
         \<and> LogVal machine X = Inr Y
         \<and> generate (length (m_randoms s)) uniform_real_distribution (m_engine (m_flipper s))
             = Inr (rs, e')
         \<and> Flipper_Next ((m_flipper s)\<lparr>m_engine := e'\<rparr>)
              (map2 (\<lambda>r p. r < p) rs (map2 (acceptance_probability fp) Y (m_current_Y s))) = Inr f'
         \<and> m_flipper s' = f' \<and> m_proposed_X s' = X \<and> m_proposed_Y s' = Y
         \<and> m_randoms s' = rs
         \<and> m_accept s' = map2 (\<lambda>r p. r < p) rs (map2 (acceptance_probability fp) Y (m_current_Y s))
         \<and> m_current_Y s' = select (m_accept s') Y (m_current_Y s)"
  using assms unfolding MetropolisLocalV2_Next_def Let_def
  by (auto split: sum.splits prod.splits)

lemma uniform_real_distribution_range:
  assumes "uniform_real_distribution e = Inr (r, e')"
  shows "0 \<le> r \<and> r < 1"
proof -
  from assms have r: "r = real (e 0 mod 2 ^ 53) / 2 ^ 53"
    by (simp add: uniform_real_distribution_def)
  have "e 0 mod 2 ^ 53 < (2 ^ 53 :: nat)" by simp
  then have "real (e 0 mod 2 ^ 53) < real (2 ^ 53 :: nat)" by (simp only: of_nat_less_iff)
  then have "real (e 0 mod 2 ^ 53) < 2 ^ 53" by simp
  with r show ?thesis by simp
qed

lemma generate_randoms:
  assumes "generate n uniform_real_distribution e = Inr (rs, e')"
  shows "length rs = n \<and> (\<forall>r \<in> set rs. 0 \<le> r \<and> r < 1)"
  by (rule generate_Inr [OF assms]) (rule uniform_real_distribution_range)

lemma generate_randoms_total:
  "\<exists>rs e'. generate n uniform_real_distribution e = Inr (rs, e')"
proof (rule generate_total)
  fix e' :: engine
  show "\<exists>v e''. uniform_real_distribution e' = Inr (v, e'')"
    unfolding uniform_real_distribution_def by blast
qed

lemma select_length:
  "length a = length c \<Longrightarrow> length b = length c \<Longrightarrow> length (select c a b) = length c"
  by (simp add: select_def)

lemma select_nth:
  "j < length c \<Longrightarrow> length a = length c \<Longrightarrow> length b = length c \<Longrightarrow>
     select c a b ! j = (if c ! j then a ! j else b ! j)"
  by (simp add: select_def)

text \<open>What the model knows of the double arithmetic, and what follows for the
  acceptance probability: it lies in \<open>[0, 1]\<close>, it is 1 when the real part does not
  decrease, and it is 0 when the real part falls by 400, where the exact
  \<open>exp(-800)\<close> is positive.\<close>

lemma double_arith_props:
  "x \<le> y \<Longrightarrow> d_round fp x \<le> d_round fp y"
  "\<bar>k\<bar> \<le> 2 ^ 53 \<Longrightarrow> d_round fp (of_int k) = of_int k"
  "\<bar>x\<bar> \<le> 1 / 2 ^ 1075 \<Longrightarrow> d_round fp x = 0"
  "0 \<le> d_exp fp x"
  "0 \<le> x \<Longrightarrow> 1 \<le> d_exp fp x"
  "- 700 \<le> x \<Longrightarrow> d_exp fp x \<le> 2 * exp x"
proof -
  have "is_double_arith (Rep_double_arith fp)" using Rep_double_arith [of fp] by simp
  then have p: "is_double_arith (d_round fp, d_exp fp)" by (simp add: d_round_def d_exp_def)
  from p show "x \<le> y \<Longrightarrow> d_round fp x \<le> d_round fp y"
    unfolding is_double_arith_def by blast
  from p show "\<bar>k\<bar> \<le> 2 ^ 53 \<Longrightarrow> d_round fp (of_int k) = of_int k"
    unfolding is_double_arith_def by blast
  from p show "\<bar>x\<bar> \<le> 1 / 2 ^ 1075 \<Longrightarrow> d_round fp x = 0"
    unfolding is_double_arith_def by blast
  from p show "0 \<le> d_exp fp x" unfolding is_double_arith_def by blast
  from p show "0 \<le> x \<Longrightarrow> 1 \<le> d_exp fp x" unfolding is_double_arith_def by blast
  from p show "- 700 \<le> x \<Longrightarrow> d_exp fp x \<le> 2 * exp x"
    unfolding is_double_arith_def by blast
qed

lemma d_round_0 [simp]: "d_round fp 0 = 0"
  using double_arith_props(2) [of 0 fp] by simp

lemma d_round_1 [simp]: "d_round fp 1 = 1"
  using double_arith_props(2) [of 1 fp] by simp


lemma acceptance_probability_one:
  assumes "Re c \<le> Re p"
  shows "acceptance_probability fp p c = 1"
proof -
  let ?x = "d_round fp (Re p - Re c)"
  let ?y = "d_exp fp ?x"
  from assms have "0 \<le> Re p - Re c" by simp
  from double_arith_props(1) [OF this, of fp] have "0 \<le> ?x" by simp
  then have y: "1 \<le> ?y" by (rule double_arith_props(5))
  then have "1 * 1 \<le> ?y * ?y" by (intro mult_mono) simp_all
  then have "1 \<le> ?y * ?y" by simp
  from double_arith_props(1) [OF this, of fp] have "1 \<le> d_round fp (?y * ?y)" by simp
  then show ?thesis by (simp add: acceptance_probability_def Let_def)
qed

lemma exp_400_lower: "(2::real) ^ 560 \<le> exp 400"
proof -
  have h: "(13::real) / 8 \<le> exp (1 / 2)"
    using exp_lower_Taylor_quadratic [of "1 / 2 :: real"] by (simp add: power2_eq_square)
  have ten: "(2::real) ^ 7 \<le> (13 / 8) ^ 10" by (simp add: power_divide)
  have "(2::real) ^ 560 = (2 ^ 7) ^ 80" by (simp add: power_mult [symmetric])
  also have "\<dots> \<le> ((13 / 8) ^ 10) ^ 80" using ten by (rule power_mono) simp
  also have "\<dots> = (13 / 8) ^ 800" by (simp add: power_mult [symmetric])
  also have "\<dots> \<le> (exp (1 / 2)) ^ 800" using h by (rule power_mono) simp
  also have "\<dots> = exp 400" by (simp add: exp_of_nat_mult [symmetric])
  finally show ?thesis .
qed

lemma acceptance_probability_underflow:
  "acceptance_probability fp (- 400) 0 = 0"
proof -
  have x: "d_round fp (- 400) = - 400"
    using double_arith_props(2) [of "- 400" fp] by simp
  let ?y = "d_exp fp (- 400)"
  have y0: "0 \<le> ?y" by (rule double_arith_props(4))
  have "exp (- 400 :: real) = 1 / exp 400" by (simp add: exp_minus inverse_eq_divide)
  also have "\<dots> \<le> 1 / 2 ^ 560"
    using exp_400_lower by (intro divide_left_mono) simp_all
  finally have e: "exp (- 400 :: real) \<le> 1 / 2 ^ 560" .
  have "?y \<le> 2 * exp (- 400)" by (rule double_arith_props(6)) simp
  also have "\<dots> \<le> 2 * (1 / 2 ^ 560)" using e by simp
  also have "\<dots> \<le> 1 / 2 ^ 559" by simp
  finally have y: "?y \<le> 1 / 2 ^ 559" .
  have "?y * ?y \<le> (1 / 2 ^ 559) * (1 / 2 ^ 559)"
    using y y0 by (intro mult_mono) simp_all
  also have "\<dots> \<le> 1 / 2 ^ 1075" by simp
  finally have "\<bar>?y * ?y\<bar> \<le> 1 / 2 ^ 1075" using y0 by simp
  then have "d_round fp (?y * ?y) = 0" by (rule double_arith_props(3))
  then show ?thesis by (simp add: acceptance_probability_def Let_def x)
qed

lemma example_probabilities [simp]:
  "acceptance_probability fp 0 0 = 1"
  "acceptance_probability fp 0 (- 400) = 1"
  "acceptance_probability fp (- 400) 0 = 0"
  using acceptance_probability_underflow [of fp]
  by (simp_all add: acceptance_probability_one)

text \<open>What a completed step computed, chain by chain.\<close>

lemma MetropolisLocalV2_Next_chain:
  assumes inv: "MetropolisLocalV2_inv s" and shape: "oracle_shape machine"
    and step: "MetropolisLocalV2_Next fp machine s = Inr s'"
    and j: "j < BatchSize (m_flipper s)"
  shows "length (m_accept s') = BatchSize (m_flipper s)
       \<and> length (m_proposed_Y s') = BatchSize (m_flipper s)
       \<and> length (m_randoms s') = BatchSize (m_flipper s)
       \<and> length (m_current_Y s') = BatchSize (m_flipper s)
       \<and> 0 \<le> m_randoms s' ! j \<and> m_randoms s' ! j < 1
       \<and> (m_accept s' ! j \<longleftrightarrow>
            m_randoms s' ! j < acceptance_probability fp (m_proposed_Y s' ! j) (m_current_Y s ! j))
       \<and> m_current_Y s' ! j = (if m_accept s' ! j then m_proposed_Y s' ! j else m_current_Y s ! j)"
proof -
  let ?B = "BatchSize (m_flipper s)"
  from MetropolisLocalV2_Next_Inr [OF step] obtain X Y rs e' where
    rd: "Flipper_Read_into (m_flipper s) (m_proposed_X s) = Inr X"
    and lv: "LogVal machine X = Inr Y"
    and gn: "generate (length (m_randoms s)) uniform_real_distribution (m_engine (m_flipper s))
             = Inr (rs, e')"
    and eq: "m_proposed_Y s' = Y" "m_randoms s' = rs"
      "m_accept s' = map2 (\<lambda>r p. r < p) rs (map2 (acceptance_probability fp) Y (m_current_Y s))"
      "m_current_Y s' = select (m_accept s') Y (m_current_Y s)"
    by blast
  from Flipper_Read_into_Inr [OF rd] have "rows X = ?B" by (elim conjE)
  with shape lv have lY: "length Y = ?B" by (simp add: oracle_shape_def)
  from inv have lc: "length (m_current_Y s) = ?B" and lr: "length (m_randoms s) = ?B"
    by (simp_all add: MetropolisLocalV2_inv_def)
  from generate_randoms [OF gn] lr have lrs: "length rs = ?B"
    and rng: "\<forall>r \<in> set rs. 0 \<le> r \<and> r < 1" by simp_all
  have la: "length (m_accept s') = ?B" using eq(3) lY lc lrs by simp
  from j lrs have "rs ! j \<in> set rs" by simp
  with rng have r01: "0 \<le> rs ! j \<and> rs ! j < 1" by blast
  have acc: "m_accept s' ! j \<longleftrightarrow> rs ! j < acceptance_probability fp (Y ! j) (m_current_Y s ! j)"
    using eq(3) j lY lc lrs by simp
  have cur: "m_current_Y s' ! j = (if m_accept s' ! j then Y ! j else m_current_Y s ! j)"
    unfolding eq(4) using j la lY lc by (simp add: select_nth)
  have lcur: "length (m_current_Y s') = ?B"
    unfolding eq(4) using la lY lc by (simp add: select_length)
  from la lY lrs lcur r01 acc cur eq(1,2) show ?thesis by simp
qed

lemma Flipper_inv_engine [simp]: "Flipper_inv (f\<lparr>m_engine := e\<rparr>) = Flipper_inv f"
  by (simp add: Flipper_inv_def BatchSize_def SystemSize_def)

lemma commit_engine [simp]: "commit (f\<lparr>m_engine := e\<rparr>) acc = commit f acc"
  by (simp add: commit_write_rows BatchSize_def)

lemma MetropolisLocalV2_Next_flipper:
  assumes "MetropolisLocalV2_Next fp machine s = Inr s'" and "Flipper_inv (m_flipper s)"
  shows "Flipper_inv (m_flipper s')
       \<and> m_local_states (m_flipper s') = m_local_states (m_flipper s)
       \<and> BatchSize (m_flipper s') = BatchSize (m_flipper s)
       \<and> SystemSize (m_flipper s') = SystemSize (m_flipper s)
       \<and> m_state (m_flipper s') = commit (m_flipper s) (m_accept s')"
proof -
  from MetropolisLocalV2_Next_Inr [OF assms(1)] obtain e' where
    nx: "Flipper_Next ((m_flipper s)\<lparr>m_engine := e'\<rparr>) (m_accept s') = Inr (m_flipper s')"
    by auto
  have "Flipper_inv ((m_flipper s)\<lparr>m_engine := e'\<rparr>)" using assms(2) by simp
  from Flipper_Next_inv [OF nx this] show ?thesis
    by (simp add: BatchSize_def SystemSize_def commit_shape)
qed

lemma MetropolisLocalV2_Reset_Inr:
  assumes "MetropolisLocalV2_Reset machine s = Inr s'"
  shows "\<exists>f Y. Flipper_Reset (m_flipper s) = Inr f \<and> LogVal machine (m_state f) = Inr Y
           \<and> s' = s\<lparr>m_flipper := f, m_current_Y := Y\<rparr>"
  using assms unfolding MetropolisLocalV2_Reset_def Current_def
  by (auto split: sum.splits)

lemma MetropolisLocalV2_Reset_flipper:
  assumes "MetropolisLocalV2_Reset machine s = Inr s'" and "Flipper_inv (m_flipper s)"
  shows "Flipper_inv (m_flipper s')
       \<and> m_local_states (m_flipper s') = m_local_states (m_flipper s)
       \<and> BatchSize (m_flipper s') = BatchSize (m_flipper s)
       \<and> SystemSize (m_flipper s') = SystemSize (m_flipper s)"
proof -
  from MetropolisLocalV2_Reset_Inr [OF assms(1)] obtain f Y where
    r: "Flipper_Reset (m_flipper s) = Inr f" and s': "s' = s\<lparr>m_flipper := f, m_current_Y := Y\<rparr>"
    by blast
  from assms(2) have "length (m_sites (m_flipper s)) = BatchSize (m_flipper s)"
    "length (m_values (m_flipper s)) = BatchSize (m_flipper s)"
    by (simp_all add: Flipper_inv_def)
  from Flipper_Reset_inv [OF r this] s' show ?thesis by simp
qed

lemma MetropolisLocalV2_ctor_Inr:
  assumes "MetropolisLocalV2_ctor machine batch_size e = Inr s"
  shows "Flipper_inv (m_flipper s)
       \<and> m_local_states (m_flipper s) = sort (LocalStates machine)
       \<and> BatchSize (m_flipper s) = nat batch_size
       \<and> SystemSize (m_flipper s) = nat (Nvisible machine)
       \<and> 1 \<le> batch_size \<and> 1 \<le> Nvisible machine \<and> LocalStates machine \<noteq> []
       \<and> LogVal machine (m_state (m_flipper s)) = Inr (m_current_Y s)
       \<and> rows (m_proposed_X s) = nat batch_size
       \<and> cols (m_proposed_X s) = nat (Nvisible machine)
       \<and> length (m_randoms s) = nat batch_size"
proof -
  from assms obtain f Y where
    c: "Flipper_ctor (batch_size, Nvisible machine) (LocalStates machine) e = Inr f"
    and lv: "LogVal machine (m_state f) = Inr Y"
    and s: "m_flipper s = f" "m_current_Y s = Y" "rows (m_proposed_X s) = nat batch_size"
      "cols (m_proposed_X s) = nat (Nvisible machine)" "length (m_randoms s) = nat batch_size"
    by (auto simp: MetropolisLocalV2_ctor_def MetropolisLocalV2_safe_def CheckBatchSize_def
        Current_def and_then_Inr split: if_splits)
  from Flipper_ctor_Inr [OF c] lv s show ?thesis by simp
qed

lemma run_flipper_inv:
  assumes "run fp machine opns s = Inr s'" and "Flipper_inv (m_flipper s)"
  shows "Flipper_inv (m_flipper s')
       \<and> m_local_states (m_flipper s') = m_local_states (m_flipper s)
       \<and> BatchSize (m_flipper s') = BatchSize (m_flipper s)
       \<and> SystemSize (m_flipper s') = SystemSize (m_flipper s)"
  using assms
proof (induction opns arbitrary: s)
  case Nil
  then show ?case by simp
next
  case (Cons opn opns)
  from Cons.prems(1) obtain s1 where a: "apply_operation fp machine opn s = Inr s1"
    and r: "run fp machine opns s1 = Inr s'"
    by (auto split: sum.splits)
  have one: "Flipper_inv (m_flipper s1)
       \<and> m_local_states (m_flipper s1) = m_local_states (m_flipper s)
       \<and> BatchSize (m_flipper s1) = BatchSize (m_flipper s)
       \<and> SystemSize (m_flipper s1) = SystemSize (m_flipper s)"
  proof (cases opn)
    case Reset
    with a have "MetropolisLocalV2_Reset machine s = Inr s1" by (simp add: apply_operation_def)
    from MetropolisLocalV2_Reset_flipper [OF this Cons.prems(2)] show ?thesis .
  next
    case Step
    with a have "MetropolisLocalV2_Next fp machine s = Inr s1" by (simp add: apply_operation_def)
    from MetropolisLocalV2_Next_flipper [OF this Cons.prems(2)] show ?thesis by simp
  next
    case ReadState
    with a Cons.prems(2) show ?thesis by (simp add: apply_operation_def)
  qed
  then have "Flipper_inv (m_flipper s1)" by simp
  from Cons.IH [OF r this] one show ?case by simp
qed

lemma coeff_mem_data:
  assumes "length (data m) = b * cols m" and "j < b" and "k < cols m"
  shows "coeff m j k \<in> set (data m)"
  using index_in_range(1) [OF assms(2,3)] assms(1) by (simp add: coeff_def)

subsection \<open>Evaluating the concrete sampler\<close>

lemmas eval_defs =
  MetropolisLocalV2_ctor_def MetropolisLocalV2_safe_def CheckBatchSize_def Flipper_ctor_def
  Flipper_Reset_def RandomState_def RandomSites_def RandomValues_def RandomValues_g_def
  proposal_value_def coeff_def set_coeff_def and_then_def uniform_int_distribution_def
  uniform_real_distribution_def static_cast_int_def advance_def BatchSize_def SystemSize_def
  Current_def MetropolisLocalV2_Next_def MetropolisLocalV2_Reset_def Flipper_Next_def
  Flipper_Read_into_def Flipper_Read_def commit_def select_def
  apply_operation_def

lemma example_ctor:
  "MetropolisLocalV2_ctor example_machine 1 (\<lambda>n. 0) = Inr example_initial"
  by (simp add: example_machine_def example_initial_def eval_defs)

lemma example_step:
  "MetropolisLocalV2_Next fp example_machine example_initial = Inr example_accepted"
  by (simp add: example_machine_def example_initial_def example_accepted_def eval_defs)

lemma example_run:
  "run fp example_machine [ReadState, Step] example_initial = Inr example_accepted"
  by (simp add: apply_operation_def example_step)

section \<open>Alphabet membership\<close>

text \<open>
  Claim C4 (invariant I1). After a successful construction and any sequence of
  \<^verbatim>\<open>Reset\<close>, \<^verbatim>\<open>Next\<close> and \<^verbatim>\<open>Read\<close> calls, the configuration has the
  shape it was built with and each of its entries is a member of the alphabet the
  constructor was given.
\<close>

theorem alphabet_membership:
  assumes "MetropolisLocalV2_ctor machine batch_size e = Inr s0"
    and "run fp machine opns s0 = Inr s"
  shows "rows (m_state (m_flipper s)) = nat batch_size
       \<and> cols (m_state (m_flipper s)) = nat (Nvisible machine)
       \<and> length (data (m_state (m_flipper s))) = nat batch_size * nat (Nvisible machine)
       \<and> set (data (m_state (m_flipper s))) \<subseteq> set (LocalStates machine)
       \<and> (\<forall>j < nat batch_size. \<forall>k < nat (Nvisible machine).
            coeff (m_state (m_flipper s)) j k \<in> set (LocalStates machine))"
proof -
  note C = MetropolisLocalV2_ctor_Inr [OF assms(1)]
  then have "Flipper_inv (m_flipper s0)" by simp
  note R = run_flipper_inv [OF assms(2) this]
  from R C have inv: "Flipper_inv (m_flipper s)"
    and ls: "set (m_local_states (m_flipper s)) = set (LocalStates machine)"
    and B: "BatchSize (m_flipper s) = nat batch_size"
    and S: "SystemSize (m_flipper s) = nat (Nvisible machine)"
    by simp_all
  from inv B S have len: "length (data (m_state (m_flipper s))) = nat batch_size * nat (Nvisible machine)"
    by (simp add: Flipper_inv_def)
  from inv ls have sub: "set (data (m_state (m_flipper s))) \<subseteq> set (LocalStates machine)"
    by (simp add: Flipper_inv_def)
  have mem: "coeff (m_state (m_flipper s)) j k \<in> set (LocalStates machine)"
    if "j < nat batch_size" "k < nat (Nvisible machine)" for j k
  proof -
    from S have c: "cols (m_state (m_flipper s)) = nat (Nvisible machine)"
      by (simp add: SystemSize_def)
    from len c have "length (data (m_state (m_flipper s))) = nat batch_size * cols (m_state (m_flipper s))"
      by simp
    from coeff_mem_data [OF this that(1)] that(2) c sub show ?thesis by auto
  qed
  from B S len sub mem show ?thesis by (simp add: BatchSize_def SystemSize_def)
qed

theorem alphabet_membership_witness:
  "MetropolisLocalV2_ctor example_machine 1 (\<lambda>n. 0) = Inr example_initial
   \<and> run example_arith example_machine [ReadState, Step] example_initial = Inr example_accepted
   \<and> data (m_state (m_flipper example_accepted)) = [1]
   \<and> set (data (m_state (m_flipper example_accepted))) \<subseteq> set (LocalStates example_machine)
   \<and> coeff (m_state (m_flipper example_accepted)) 0 0 \<in> set (LocalStates example_machine)"
proof -
  have d: "data (m_state (m_flipper example_accepted)) = [1]"
    by (simp add: example_accepted_def)
  have nv: "Nvisible example_machine = 1" by (simp add: example_machine_def)
  from alphabet_membership [OF example_ctor example_run] example_ctor example_run d
  show ?thesis by (simp add: nv)
qed

section \<open>The acceptance rule and its effect\<close>



lemma commit_row:
  assumes "Flipper_inv f" and "j < BatchSize f"
  shows "row (commit f acc) j =
           (if acc ! j then (row (m_state f) j)[m_sites f ! j := m_values f ! j]
            else row (m_state f) j)"
proof -
  from assms(1) have "\<forall>j < BatchSize f. m_sites f ! j < cols (m_state f)"
    by (simp add: Flipper_inv_def SystemSize_def)
  from write_rows_row [OF this, of "\<lambda>j. acc ! j" "\<lambda>j. m_values f ! j" j] assms(2)
  show ?thesis by (simp add: commit_write_rows)
qed

lemma spec_acceptance_probability_one:
  assumes "Re c \<le> Re p"
  shows "spec_acceptance_probability p c = 1"
proof -
  from assms have "0 \<le> 2 * Re (p - c)" by simp
  then have "1 \<le> exp (2 * Re (p - c))" by (rule one_le_exp_iff [THEN iffD2])
  then show ?thesis by (simp add: spec_acceptance_probability_def)
qed


lemma Flipper_Next_Inr:
  assumes "Flipper_Next f acc = Inr f'"
  shows "\<exists>f1. RandomSites (f\<lparr>m_state := commit f acc\<rparr>) = Inr f1 \<and> RandomValues f1 = Inr f'"
  using assms by (auto simp: Flipper_Next_def and_then_Inr split: if_splits)

subsection \<open>The draws of a step, in terms of the engine's raw numbers\<close>









subsection \<open>Evaluating the concrete steps\<close>

text \<open>The steps of the examples come out the same in every double arithmetic.\<close>

lemma example_initial_inv: "MetropolisLocalV2_inv example_initial"
  by (simp add: MetropolisLocalV2_inv_def Flipper_inv_def example_initial_def BatchSize_def
      SystemSize_def)



lemma example_machine_shape: "oracle_shape example_machine"
  by (auto simp: oracle_shape_def example_machine_def)


lemma example_biased_ctor:
  "MetropolisLocalV2_ctor example_biased 1 (\<lambda>n. 0) = Inr example_low"
  by (simp add: example_biased_def example_low_def eval_defs rows_of_def row_def
      example_amplitude_def)

lemma example_biased_step:
  "MetropolisLocalV2_Next fp example_biased example_low = Inr example_accepted"
  by (simp add: example_biased_def example_low_def example_accepted_def eval_defs
      rows_of_def row_def example_amplitude_def)







text \<open>
  Claim C10. A chain \<open>j\<close> with \<open>Re(proposed[j]) \<ge> Re(current[j])\<close> is accepted
  whatever its random draw: the acceptance probability is 1 and the draw is below 1.
  Its cached log-amplitude becomes the proposed one and its row takes the proposed
  value.
\<close>

theorem Next_accepts_improvement:
  assumes "MetropolisLocalV2_inv s" and "oracle_shape machine"
    and "MetropolisLocalV2_Next fp machine s = Inr s'"
    and "j < BatchSize (m_flipper s)"
    and "Re (m_current_Y s ! j) \<le> Re (m_proposed_Y s' ! j)"
  shows "spec_acceptance_probability (m_proposed_Y s' ! j) (m_current_Y s ! j) = 1
       \<and> acceptance_probability fp (m_proposed_Y s' ! j) (m_current_Y s ! j) = 1
       \<and> m_randoms s' ! j < 1
       \<and> m_accept s' ! j
       \<and> m_current_Y s' ! j = m_proposed_Y s' ! j
       \<and> row (m_state (m_flipper s')) j
           = (row (m_state (m_flipper s)) j)
               [m_sites (m_flipper s) ! j := m_values (m_flipper s) ! j]"
proof -
  note C = MetropolisLocalV2_Next_chain [OF assms(1-4)]
  note P = acceptance_probability_one [OF assms(5), of fp]
  note S = spec_acceptance_probability_one [OF assms(5)]
  from C P have acc: "m_accept s' ! j" by simp
  from assms(1) have inv: "Flipper_inv (m_flipper s)" by (simp add: MetropolisLocalV2_inv_def)
  from MetropolisLocalV2_Next_flipper [OF assms(3) inv]
  have "m_state (m_flipper s') = commit (m_flipper s) (m_accept s')" by simp
  with commit_row [OF inv assms(4), of "m_accept s'"] acc
  have "row (m_state (m_flipper s')) j
           = (row (m_state (m_flipper s)) j)
               [m_sites (m_flipper s) ! j := m_values (m_flipper s) ! j]" by simp
  with C P S acc show ?thesis by simp
qed

theorem Next_accepts_improvement_witness:
  "MetropolisLocalV2_inv example_initial \<and> oracle_shape example_machine
   \<and> MetropolisLocalV2_Next example_arith example_machine example_initial = Inr example_accepted
   \<and> (0::nat) < BatchSize (m_flipper example_initial)
   \<and> Re (m_current_Y example_initial ! 0) \<le> Re (m_proposed_Y example_accepted ! 0)
   \<and> m_accept example_accepted ! 0
   \<and> row (m_state (m_flipper example_accepted)) 0 = [1]"
proof -
  have j: "(0::nat) < BatchSize (m_flipper example_initial)"
    by (simp add: example_initial_def BatchSize_def)
  have re: "Re (m_current_Y example_initial ! 0) \<le> Re (m_proposed_Y example_accepted ! 0)"
    by (simp add: example_initial_def example_accepted_def)
  have rw: "row (m_state (m_flipper example_accepted)) 0 = [1]"
    by (simp add: example_accepted_def row_def)
  from Next_accepts_improvement [OF example_initial_inv example_machine_shape
      example_step [of example_arith] j re]
    example_initial_inv example_machine_shape example_step [of example_arith] j re rw
  show ?thesis by simp
qed



section \<open>A throwing oracle\<close>

lemma Flipper_Read_into_again:
  assumes "Flipper_Read_into f x = Inr X"
  shows "Flipper_Read_into f X = Inr X"
proof -
  from Flipper_Read_into_Inr [OF assms]
  have X: "X = write_rows (\<lambda>j. True) (\<lambda>j. m_sites f ! j) (\<lambda>j. m_values f ! j)
                (BatchSize f) (m_state f)"
    and shape: "rows X = BatchSize f" "cols X = SystemSize f"
    by blast+
  from shape show ?thesis unfolding Flipper_Read_into_write_rows X [symmetric] by simp
qed

lemma MetropolisLocalV2_Next_buffer:
  assumes "Flipper_Read_into (m_flipper s) (m_proposed_X s) = Inr X"
  shows "MetropolisLocalV2_Next fp machine (s\<lparr>m_proposed_X := X\<rparr>) = MetropolisLocalV2_Next fp machine s"
  using assms Flipper_Read_into_again [OF assms]
  by (simp add: MetropolisLocalV2_Next_def Let_def split: sum.splits prod.splits)

text \<open>
  Claim C7. If the oracle call inside \<^verbatim>\<open>Next\<close> throws, the call ends with that
  exception and the persisted state is what it was: the configuration, the cached
  log-amplitudes, the proposed sites and values (and the engine). Only the scratch
  buffer \<^verbatim>\<open>proposed_X_\<close> has been written, with the materialized proposal; a
  retried step materializes the same proposal again and behaves as the first call
  would have.
\<close>

theorem Next_oracle_failure:
  assumes "Flipper_Read_into (m_flipper s) (m_proposed_X s) = Inr X"
    and "LogVal machine X = Inl err"
  shows "\<exists>s'. MetropolisLocalV2_Next fp machine s = Inl (err, s')
           \<and> m_state (m_flipper s') = m_state (m_flipper s)
           \<and> m_current_Y s' = m_current_Y s
           \<and> m_sites (m_flipper s') = m_sites (m_flipper s)
           \<and> m_values (m_flipper s') = m_values (m_flipper s)
           \<and> m_flipper s' = m_flipper s
           \<and> Flipper_Read_into (m_flipper s') (m_proposed_X s') = Inr X
           \<and> (\<forall>machine'. MetropolisLocalV2_Next fp machine' s' = MetropolisLocalV2_Next fp machine' s)"
proof -
  let ?s' = "s\<lparr>m_proposed_X := X\<rparr>"
  have r: "MetropolisLocalV2_Next fp machine s = Inl (err, ?s')"
    using assms by (simp add: MetropolisLocalV2_Next_def)
  have a: "Flipper_Read_into (m_flipper ?s') (m_proposed_X ?s') = Inr X"
    using Flipper_Read_into_again [OF assms(1)] by simp
  have n: "\<forall>machine'. MetropolisLocalV2_Next fp machine' ?s' = MetropolisLocalV2_Next fp machine' s"
    using MetropolisLocalV2_Next_buffer [OF assms(1)] by simp
  show ?thesis
  proof (intro exI conjI)
    show "MetropolisLocalV2_Next fp machine s = Inl (err, ?s')" by (rule r)
    show "Flipper_Read_into (m_flipper ?s') (m_proposed_X ?s') = Inr X" by (rule a)
    show "\<forall>machine'. MetropolisLocalV2_Next fp machine' ?s' = MetropolisLocalV2_Next fp machine' s"
      by (rule n)
  qed simp_all
qed

theorem Next_oracle_failure_witness:
  "Flipper_Read_into (m_flipper example_initial) (m_proposed_X example_initial)
     = Inr \<lparr>rows = 1, cols = 1, data = [1]\<rparr>
   \<and> LogVal example_throwing \<lparr>rows = 1, cols = 1, data = [1]\<rparr> = Inl (OracleError 7)
   \<and> MetropolisLocalV2_Next example_arith example_throwing example_initial
       = Inl (OracleError 7, example_initial\<lparr>m_proposed_X := \<lparr>rows = 1, cols = 1, data = [1]\<rparr>\<rparr>)"
proof -
  have h1: "Flipper_Read_into (m_flipper example_initial) (m_proposed_X example_initial)
     = Inr \<lparr>rows = 1, cols = 1, data = [1]\<rparr>"
    by (simp add: example_initial_def eval_defs)
  have h2: "LogVal example_throwing \<lparr>rows = 1, cols = 1, data = [1]\<rparr> = Inl (OracleError 7)"
    by (simp add: example_throwing_def)
  have ev: "MetropolisLocalV2_Next example_arith example_throwing example_initial
       = Inl (OracleError 7, example_initial\<lparr>m_proposed_X := \<lparr>rows = 1, cols = 1, data = [1]\<rparr>\<rparr>)"
    using h1 h2 by (simp add: MetropolisLocalV2_Next_def)
  from Next_oracle_failure [where fp = example_arith, OF h1 h2] h1 h2 ev show ?thesis by simp
qed

section \<open>Cache consistency\<close>

lemma rows_of_length: "length (rows_of X) = rows X"
  by (simp add: rows_of_def)

lemma rows_of_nth: "j < rows X \<Longrightarrow> rows_of X ! j = row X j"
  by (simp add: rows_of_def)

lemma pure_oracle_shape:
  assumes "\<forall>X. LogVal machine X = Inr (map amplitude (rows_of X))"
  shows "oracle_shape machine"
  using assms by (auto simp: oracle_shape_def rows_of_length)

lemma MetropolisLocalV2_Next_inv:
  assumes inv: "MetropolisLocalV2_inv s" and shape: "oracle_shape machine"
    and step: "MetropolisLocalV2_Next fp machine s = Inr s'"
  shows "MetropolisLocalV2_inv s' \<and> length (m_accept s') = BatchSize (m_flipper s)"
proof -
  let ?B = "BatchSize (m_flipper s)"
  from MetropolisLocalV2_Next_Inr [OF step] obtain X Y rs e' where
    rd: "Flipper_Read_into (m_flipper s) (m_proposed_X s) = Inr X"
    and lv: "LogVal machine X = Inr Y"
    and gn: "generate (length (m_randoms s)) uniform_real_distribution (m_engine (m_flipper s))
             = Inr (rs, e')"
    and eq: "m_proposed_X s' = X" "m_randoms s' = rs"
      "m_accept s' = map2 (\<lambda>r p. r < p) rs (map2 (acceptance_probability fp) Y (m_current_Y s))"
      "m_current_Y s' = select (m_accept s') Y (m_current_Y s)"
    by blast
  from Flipper_Read_into_Inr [OF rd] have X: "rows X = ?B" "cols X = SystemSize (m_flipper s)"
    by blast+
  with shape lv have lY: "length Y = ?B" by (simp add: oracle_shape_def)
  from inv have finv: "Flipper_inv (m_flipper s)"
    and lc: "length (m_current_Y s) = ?B" and lr: "length (m_randoms s) = ?B"
    by (simp_all add: MetropolisLocalV2_inv_def)
  from generate_randoms [OF gn] lr have lrs: "length rs = ?B" by simp
  have la: "length (m_accept s') = ?B" using eq(3) lY lc lrs by simp
  have lcur: "length (m_current_Y s') = ?B"
    unfolding eq(4) using la lY lc by (simp add: select_length)
  note F = MetropolisLocalV2_Next_flipper [OF step finv]
  from F X eq(1,2) lrs lcur la show ?thesis by (simp add: MetropolisLocalV2_inv_def)
qed

lemma commit_amplitudes:
  assumes inv: "Flipper_inv f" and la: "length acc = BatchSize f"
    and X: "Flipper_Read_into f x = Inr X"
  shows "map amplitude (rows_of (commit f acc))
           = select acc (map amplitude (rows_of X)) (map amplitude (rows_of (m_state f)))"
proof (rule nth_equalityI)
  from Flipper_Read_into_Inr [OF X] have rX: "rows X = BatchSize f" by blast
  have lens: "length (map amplitude (rows_of X)) = length acc"
    "length (map amplitude (rows_of (m_state f))) = length acc"
    using rX la by (simp_all add: rows_of_length BatchSize_def)
  show "length (map amplitude (rows_of (commit f acc)))
          = length (select acc (map amplitude (rows_of X)) (map amplitude (rows_of (m_state f))))"
    using la by (simp add: select_length [OF lens] rows_of_length commit_shape BatchSize_def)
  fix j assume "j < length (map amplitude (rows_of (commit f acc)))"
  then have j: "j < BatchSize f" by (simp add: rows_of_length commit_shape BatchSize_def)
  from inv have sites: "\<forall>j < BatchSize f. m_sites f ! j < cols (m_state f)"
    by (simp add: Flipper_inv_def SystemSize_def)
  from Flipper_Read_into_Inr [OF X]
  have "X = write_rows (\<lambda>j. True) (\<lambda>j. m_sites f ! j) (\<lambda>j. m_values f ! j)
                (BatchSize f) (m_state f)" by blast
  with write_rows_row [OF sites, of "\<lambda>j. True" "\<lambda>j. m_values f ! j" j] j
  have rowX: "row X j = (row (m_state f) j)[m_sites f ! j := m_values f ! j]" by simp
  have "select acc (map amplitude (rows_of X)) (map amplitude (rows_of (m_state f))) ! j
          = (if acc ! j then amplitude (row X j) else amplitude (row (m_state f) j))"
    using j la rX lens by (simp add: select_nth rows_of_nth rows_of_length BatchSize_def)
  moreover have "map amplitude (rows_of (commit f acc)) ! j = amplitude (row (commit f acc) j)"
    using j by (simp add: rows_of_nth rows_of_length commit_shape BatchSize_def)
  ultimately show "map amplitude (rows_of (commit f acc)) ! j
          = select acc (map amplitude (rows_of X)) (map amplitude (rows_of (m_state f))) ! j"
    using commit_row [OF inv j, of acc] rowX by simp
qed

lemma MetropolisLocalV2_Next_cache:
  assumes pure: "\<forall>X. LogVal machine X = Inr (map amplitude (rows_of X))"
    and inv: "MetropolisLocalV2_inv s" and cc: "cache_consistent amplitude s"
    and step: "MetropolisLocalV2_Next fp machine s = Inr s'"
  shows "cache_consistent amplitude s'"
proof -
  note shape = pure_oracle_shape [OF pure]
  from inv have finv: "Flipper_inv (m_flipper s)" by (simp add: MetropolisLocalV2_inv_def)
  from MetropolisLocalV2_Next_Inr [OF step] obtain X Y where
    rd: "Flipper_Read_into (m_flipper s) (m_proposed_X s) = Inr X"
    and lv: "LogVal machine X = Inr Y"
    and cur: "m_current_Y s' = select (m_accept s') Y (m_current_Y s)"
    by blast
  from lv pure have Y: "Y = map amplitude (rows_of X)" by simp
  from MetropolisLocalV2_Next_inv [OF inv shape step]
  have la: "length (m_accept s') = BatchSize (m_flipper s)" by simp
  from MetropolisLocalV2_Next_flipper [OF step finv]
  have st: "m_state (m_flipper s') = commit (m_flipper s) (m_accept s')" by simp
  from commit_amplitudes [OF finv la rd, of amplitude] cur Y cc st
  show ?thesis by (simp add: cache_consistent_def)
qed

lemma MetropolisLocalV2_Reset_cache:
  assumes pure: "\<forall>X. LogVal machine X = Inr (map amplitude (rows_of X))"
    and inv: "MetropolisLocalV2_inv s"
    and reset: "MetropolisLocalV2_Reset machine s = Inr s'"
  shows "MetropolisLocalV2_inv s' \<and> cache_consistent amplitude s'"
proof -
  from inv have finv: "Flipper_inv (m_flipper s)" by (simp add: MetropolisLocalV2_inv_def)
  from MetropolisLocalV2_Reset_Inr [OF reset] obtain f Y where
    lv: "LogVal machine (m_state f) = Inr Y" and s': "s' = s\<lparr>m_flipper := f, m_current_Y := Y\<rparr>"
    by blast
  from lv pure have Y: "Y = map amplitude (rows_of (m_state f))" by simp
  note F = MetropolisLocalV2_Reset_flipper [OF reset finv]
  from s' Y have cc: "cache_consistent amplitude s'" by (simp add: cache_consistent_def)
  from F inv s' Y have "MetropolisLocalV2_inv s'"
    by (simp add: MetropolisLocalV2_inv_def rows_of_length BatchSize_def)
  with cc show ?thesis by simp
qed

lemma MetropolisLocalV2_ctor_cache:
  assumes pure: "\<forall>X. LogVal machine X = Inr (map amplitude (rows_of X))"
    and ctor: "MetropolisLocalV2_ctor machine batch_size e = Inr s"
  shows "MetropolisLocalV2_inv s \<and> cache_consistent amplitude s"
proof -
  note C = MetropolisLocalV2_ctor_Inr [OF ctor]
  from C pure have Y: "m_current_Y s = map amplitude (rows_of (m_state (m_flipper s)))"
    by simp
  then have cc: "cache_consistent amplitude s" by (simp add: cache_consistent_def)
  from C Y have "MetropolisLocalV2_inv s"
    by (simp add: MetropolisLocalV2_inv_def rows_of_length BatchSize_def)
  with cc show ?thesis by simp
qed

lemma run_cache:
  assumes pure: "\<forall>X. LogVal machine X = Inr (map amplitude (rows_of X))"
    and "run fp machine opns s = Inr s'"
    and "MetropolisLocalV2_inv s \<and> cache_consistent amplitude s"
  shows "MetropolisLocalV2_inv s' \<and> cache_consistent amplitude s'"
  using assms(2,3)
proof (induction opns arbitrary: s)
  case Nil
  then show ?case by simp
next
  case (Cons opn opns)
  from Cons.prems(1) obtain s1 where a: "apply_operation fp machine opn s = Inr s1"
    and r: "run fp machine opns s1 = Inr s'"
    by (auto split: sum.splits)
  from Cons.prems(2) have inv: "MetropolisLocalV2_inv s" and cc: "cache_consistent amplitude s"
    by simp_all
  have "MetropolisLocalV2_inv s1 \<and> cache_consistent amplitude s1"
  proof (cases opn)
    case Reset
    with a have "MetropolisLocalV2_Reset machine s = Inr s1" by (simp add: apply_operation_def)
    from MetropolisLocalV2_Reset_cache [OF pure inv this] show ?thesis .
  next
    case Step
    with a have st: "MetropolisLocalV2_Next fp machine s = Inr s1" by (simp add: apply_operation_def)
    from MetropolisLocalV2_Next_inv [OF inv pure_oracle_shape [OF pure] st]
      MetropolisLocalV2_Next_cache [OF pure inv cc st]
    show ?thesis by simp
  next
    case ReadState
    with a Cons.prems(2) show ?thesis by (simp add: apply_operation_def)
  qed
  from Cons.IH [OF r this] show ?case .
qed

lemma example_biased_pure:
  "\<forall>X. LogVal example_biased X = Inr (map example_amplitude (rows_of X))"
  by (simp add: example_biased_def)

lemma example_biased_run:
  "run fp example_biased [Step, ReadState] example_low = Inr example_accepted"
  by (simp add: apply_operation_def example_biased_step)

text \<open>
  Claim C2 (invariant I2). Let the oracle be a function of the configuration: it
  returns, for each row, the amplitude of that row. Then after construction and after
  any sequence of completed \<^verbatim>\<open>Reset\<close>, \<^verbatim>\<open>Next\<close> and \<^verbatim>\<open>Read\<close> calls the
  cached vector is what the oracle returns on the current configuration, entry by
  entry.
\<close>

theorem cache_consistency:
  assumes "\<forall>X. LogVal machine X = Inr (map amplitude (rows_of X))"
    and "MetropolisLocalV2_ctor machine batch_size e = Inr s0"
    and "run fp machine opns s0 = Inr s"
  shows "LogVal machine (Current (m_flipper s)) = Inr (m_current_Y s)
       \<and> length (m_current_Y s) = BatchSize (m_flipper s)
       \<and> (\<forall>j < BatchSize (m_flipper s).
             m_current_Y s ! j = amplitude (row (m_state (m_flipper s)) j))"
proof -
  from run_cache [OF assms(1,3) MetropolisLocalV2_ctor_cache [OF assms(1,2)]]
  have inv: "MetropolisLocalV2_inv s"
    and cc: "m_current_Y s = map amplitude (rows_of (m_state (m_flipper s)))"
    by (simp_all add: cache_consistent_def)
  from cc assms(1) have "LogVal machine (Current (m_flipper s)) = Inr (m_current_Y s)"
    by (simp add: Current_def)
  moreover from inv have "length (m_current_Y s) = BatchSize (m_flipper s)"
    by (simp add: MetropolisLocalV2_inv_def)
  moreover have "m_current_Y s ! j = amplitude (row (m_state (m_flipper s)) j)"
    if "j < BatchSize (m_flipper s)" for j
    using that cc by (simp add: rows_of_nth rows_of_length BatchSize_def)
  ultimately show ?thesis by simp
qed

theorem cache_consistency_witness:
  "(\<forall>X. LogVal example_biased X = Inr (map example_amplitude (rows_of X)))
   \<and> MetropolisLocalV2_ctor example_biased 1 (\<lambda>n. 0) = Inr example_low
   \<and> run example_arith example_biased [Step, ReadState] example_low = Inr example_accepted
   \<and> LogVal example_biased (Current (m_flipper example_accepted))
       = Inr (m_current_Y example_accepted)
   \<and> m_current_Y example_low = [- 400]
   \<and> m_current_Y example_accepted = [0]"
proof -
  have c: "m_current_Y example_low = [- 400]" "m_current_Y example_accepted = [0]"
    by (simp_all add: example_low_def example_accepted_def)
  from cache_consistency [OF example_biased_pure example_biased_ctor
      example_biased_run [of example_arith]]
    example_biased_pure example_biased_ctor example_biased_run [of example_arith] c
  show ?thesis by simp
qed

section \<open>Construction\<close>

subsection \<open>When the operations return\<close>

lemma static_cast_int_small: "n < 2 ^ 31 \<Longrightarrow> static_cast_int n = int n"
  by (simp add: static_cast_int_def)

lemma uniform_int_distribution_total:
  "a \<le> b \<Longrightarrow> \<exists>v e'. uniform_int_distribution a b e = Inr (v, e')"
  by (simp add: uniform_int_distribution_def)

lemma RandomState_total:
  assumes "1 \<le> static_cast_int (length (m_local_states f))"
  shows "\<exists>f'. RandomState f = Inr f'"
proof -
  let ?gen = "\<lambda>e. and_then
                  (uniform_int_distribution 0
                     (static_cast_int (length (m_local_states f)) - 1) e)
                  (\<lambda>(i, e'). Inr (m_local_states f ! nat i, e'))"
  have "\<exists>v e'. ?gen e = Inr (v, e')" for e
    using assms by (simp add: uniform_int_distribution_def and_then_def)
  from generate_total [of ?gen, OF this] obtain xs e' where
    "generate (rows (m_state f) * cols (m_state f)) ?gen (m_engine f) = Inr (xs, e')"
    by blast
  then show ?thesis by (simp add: RandomState_def and_then_def)
qed

lemma RandomSites_total:
  assumes "1 \<le> SystemSize f"
  shows "\<exists>f'. RandomSites f = Inr f'"
proof -
  let ?gen = "\<lambda>e. and_then
                  (uniform_int_distribution 0 (int (SystemSize f) - 1) e)
                  (\<lambda>(i, e'). Inr (nat i, e'))"
  have "\<exists>v e'. ?gen e = Inr (v, e')" for e
    using assms by (simp add: uniform_int_distribution_def and_then_def)
  from generate_total [of ?gen, OF this] obtain xs e' where
    "generate (length (m_sites f)) ?gen (m_engine f) = Inr (xs, e')"
    by blast
  then show ?thesis by (simp add: RandomSites_def and_then_def)
qed

lemma RandomValues_loop_total:
  assumes "2 \<le> static_cast_int (length (m_local_states f))"
  shows "\<exists>f'. RandomValues_loop js f = Inr f'"
  using assms
proof (induction js arbitrary: f)
  case Nil
  then show ?case by simp
next
  case (Cons j js)
  from Cons.prems obtain v e' where g: "RandomValues_g f j = Inr (v, e')"
    by (auto simp: RandomValues_g_def uniform_int_distribution_def and_then_def)
  let ?f1 = "f\<lparr>m_values := (m_values f)[j := v], m_engine := e'\<rparr>"
  from Cons.prems have "2 \<le> static_cast_int (length (m_local_states ?f1))" by simp
  from Cons.IH [OF this] obtain f' where "RandomValues_loop js ?f1 = Inr f'" by blast
  with g show ?case by (simp add: and_then_def)
qed

lemma RandomValues_total:
  "2 \<le> static_cast_int (length (m_local_states f)) \<Longrightarrow> \<exists>f'. RandomValues f = Inr f'"
  unfolding RandomValues_def by (rule RandomValues_loop_total)

lemma Flipper_Reset_total:
  assumes "1 \<le> SystemSize f" and "2 \<le> static_cast_int (length (m_local_states f))"
  shows "\<exists>f'. Flipper_Reset f = Inr f'"
proof -
  from assms(2) have "1 \<le> static_cast_int (length (m_local_states f))" by simp
  from RandomState_total [OF this] obtain f1 where s1: "RandomState f = Inr f1" by blast
  note E1 = RandomState_effect [OF s1]
  from E1 assms(1) have "1 \<le> SystemSize f1" by (simp add: SystemSize_def)
  from RandomSites_total [OF this] obtain f2 where s2: "RandomSites f1 = Inr f2" by blast
  note E2 = RandomSites_effect [OF s2]
  from E1 E2 assms(2) have "2 \<le> static_cast_int (length (m_local_states f2))" by simp
  from RandomValues_total [OF this] obtain f' where "RandomValues f2 = Inr f'" by blast
  with s1 s2 show ?thesis by (simp add: Flipper_Reset_def and_then_def)
qed

lemma Flipper_Next_total:
  assumes "BatchSize f \<le> length acc" and "1 \<le> SystemSize f"
    and "2 \<le> static_cast_int (length (m_local_states f))"
  shows "\<exists>f'. Flipper_Next f acc = Inr f'"
proof -
  let ?f0 = "f\<lparr>m_state := commit f acc\<rparr>"
  from assms(2) have "1 \<le> SystemSize ?f0" by (simp add: SystemSize_def commit_shape)
  from RandomSites_total [OF this] obtain f1 where s1: "RandomSites ?f0 = Inr f1" by blast
  note E1 = RandomSites_effect [OF s1]
  from E1 assms(3) have "2 \<le> static_cast_int (length (m_local_states f1))" by simp
  from RandomValues_total [OF this] obtain f' where "RandomValues f1 = Inr f'" by blast
  with s1 assms(1) show ?thesis by (simp add: Flipper_Next_def and_then_def)
qed

text \<open>The constructor of the chain state: when it throws, with which message, and
  when it returns.\<close>

lemma Flipper_ctor_invalid:
  "batch_size < 1 \<Longrightarrow>
     Flipper_ctor (batch_size, system_size) ls e =
       Inl (InvalidInputError
              (''invalid batch size: '' @ show_int batch_size @ ''; expected >=1''))"
  "1 \<le> batch_size \<Longrightarrow> system_size < 1 \<Longrightarrow>
     Flipper_ctor (batch_size, system_size) ls e =
       Inl (InvalidInputError
              (''invalid system size: '' @ show_int system_size @ ''; expected >=1''))"
  "1 \<le> batch_size \<Longrightarrow> 1 \<le> system_size \<Longrightarrow>
     Flipper_ctor (batch_size, system_size) [] e =
       Inl (InvalidInputError ''invalid local states: []'')"
  by (simp_all add: Flipper_ctor_def)

lemma Flipper_ctor_succeeds:
  assumes "1 \<le> batch_size" and "1 \<le> system_size"
    and "2 \<le> static_cast_int (length ls)"
  shows "\<exists>f. Flipper_ctor (batch_size, system_size) ls e = Inr f"
proof -
  let ?f0 = "\<lparr>m_sites = replicate (nat batch_size) 0, m_values = replicate (nat batch_size) 0,
              m_state = \<lparr>rows = nat batch_size, cols = nat system_size,
                         data = replicate (nat batch_size * nat system_size) 0\<rparr>,
              m_local_states = sort ls, m_engine = e\<rparr>"
  from assms(3) have ne: "ls \<noteq> []" by (auto simp: static_cast_int_def)
  have "1 \<le> SystemSize ?f0" using assms(2) by (simp add: SystemSize_def)
  moreover have "2 \<le> static_cast_int (length (m_local_states ?f0))" using assms(3) by simp
  ultimately obtain f where "Flipper_Reset ?f0 = Inr f"
    using Flipper_Reset_total by blast
  with assms(1,2) ne show ?thesis by (simp add: Flipper_ctor_def)
qed

lemma Flipper_ctor_singleton:
  assumes "1 \<le> batch_size" and "1 \<le> system_size"
  shows "Flipper_ctor (batch_size, system_size) [v] e = Inl (InvertedRange 0 (- 1))"
proof -
  let ?f0 = "\<lparr>m_sites = replicate (nat batch_size) 0, m_values = replicate (nat batch_size) 0,
              m_state = \<lparr>rows = nat batch_size, cols = nat system_size,
                         data = replicate (nat batch_size * nat system_size) 0\<rparr>,
              m_local_states = sort [v], m_engine = e\<rparr>"
  have c1: "static_cast_int (length (m_local_states ?f0)) = 1"
    by (simp add: static_cast_int_def)
  then have "1 \<le> static_cast_int (length (m_local_states ?f0))" by simp
  from RandomState_total [OF this] obtain f1 where s1: "RandomState ?f0 = Inr f1" by blast
  note E1 = RandomState_effect [OF s1]
  from E1 assms(2) have "1 \<le> SystemSize f1" by (simp add: SystemSize_def)
  from RandomSites_total [OF this] obtain f2 where s2: "RandomSites f1 = Inr f2" by blast
  note E2 = RandomSites_effect [OF s2]
  from E1 E2 have ls: "m_local_states f2 = [v]" by simp
  from E1 E2 assms(1) have "0 < BatchSize f2" by (simp add: BatchSize_def)
  then have "[0..<BatchSize f2] = 0 # [1..<BatchSize f2]" by (simp add: upt_rec)
  then have "RandomValues f2 = Inl (InvertedRange 0 (- 1))"
    by (simp add: RandomValues_def RandomValues_g_def ls static_cast_int_def
        uniform_int_distribution_def and_then_def)
  with s1 s2 have "Flipper_Reset ?f0 = Inl (InvertedRange 0 (- 1))"
    by (simp add: Flipper_Reset_def and_then_def)
  with assms show ?thesis by (simp add: Flipper_ctor_def)
qed

lemma and_then_Inl:
  "and_then r k = Inl err \<longleftrightarrow> r = Inl err \<or> (\<exists>x. r = Inr x \<and> k x = Inl err)"
  by (cases r) (simp_all add: and_then_def)

lemma uniform_int_distribution_Inl:
  "uniform_int_distribution a b e = Inl err \<Longrightarrow> err = InvertedRange a b \<and> b < a"
  by (simp add: uniform_int_distribution_def split: if_splits)

lemma generate_Inl:
  assumes "generate n gen e = Inl err"
  shows "\<exists>e'. gen e' = Inl err"
  using assms
proof (induction n arbitrary: e)
  case 0
  then show ?case by simp
next
  case (Suc n)
  show ?case
  proof (cases "gen e")
    case (Inl x)
    with Suc.prems show ?thesis by auto
  next
    case (Inr p)
    obtain v e1 where p: "p = (v, e1)" by (cases p)
    with Inr Suc.prems have "generate n gen e1 = Inl err"
      by (auto split: sum.splits)
    from Suc.IH [OF this] show ?thesis .
  qed
qed

lemma RandomValues_loop_Inl:
  assumes "RandomValues_loop js f = Inl err"
  shows "\<exists>a b. err = InvertedRange a b"
  using assms
proof (induction js arbitrary: f)
  case Nil
  then show ?case by simp
next
  case (Cons j js)
  from Cons.prems have "RandomValues_g f j = Inl err
    \<or> (\<exists>v e'. RandomValues_loop js (f\<lparr>m_values := (m_values f)[j := v], m_engine := e'\<rparr>) = Inl err)"
    by (auto simp: and_then_Inl)
  then show ?case
  proof
    assume "RandomValues_g f j = Inl err"
    then show ?thesis
      by (auto simp: RandomValues_g_def and_then_Inl dest: uniform_int_distribution_Inl)
  next
    assume "\<exists>v e'. RandomValues_loop js (f\<lparr>m_values := (m_values f)[j := v], m_engine := e'\<rparr>) = Inl err"
    with Cons.IH show ?thesis by blast
  qed
qed

lemma Flipper_Reset_Inl:
  assumes "Flipper_Reset f = Inl err"
  shows "\<exists>a b. err = InvertedRange a b"
proof -
  from assms consider "RandomState f = Inl err"
    | f1 where "RandomSites f1 = Inl err"
    | f2 where "RandomValues f2 = Inl err"
    by (auto simp: Flipper_Reset_def and_then_Inl)
  then show ?thesis
  proof cases
    case 1
    then obtain e' where "and_then
                  (uniform_int_distribution 0
                     (static_cast_int (length (m_local_states f)) - 1) e')
                  (\<lambda>(i, e'). Inr (m_local_states f ! nat i, e')) = Inl err"
      by (auto simp: RandomState_def and_then_Inl dest: generate_Inl)
    then show ?thesis by (auto simp: and_then_Inl dest: uniform_int_distribution_Inl)
  next
    case 2
    then obtain e' where "and_then
                  (uniform_int_distribution 0 (int (SystemSize f1) - 1) e')
                  (\<lambda>(i, e'). Inr (nat i, e')) = Inl err"
      by (auto simp: RandomSites_def and_then_Inl dest: generate_Inl)
    then show ?thesis by (auto simp: and_then_Inl dest: uniform_int_distribution_Inl)
  next
    case 3
    then show ?thesis unfolding RandomValues_def by (rule RandomValues_loop_Inl)
  qed
qed

lemma Flipper_ctor_invalid_iff:
  "(\<exists>msg. Flipper_ctor (batch_size, system_size) ls e = Inl (InvalidInputError msg))
     \<longleftrightarrow> batch_size < 1 \<or> system_size < 1 \<or> ls = []"
proof
  assume "\<exists>msg. Flipper_ctor (batch_size, system_size) ls e = Inl (InvalidInputError msg)"
  then obtain msg where m: "Flipper_ctor (batch_size, system_size) ls e = Inl (InvalidInputError msg)"
    by blast
  show "batch_size < 1 \<or> system_size < 1 \<or> ls = []"
  proof (rule ccontr)
    assume "\<not> (batch_size < 1 \<or> system_size < 1 \<or> ls = [])"
    with m obtain f0 where "Flipper_Reset f0 = Inl (InvalidInputError msg)"
      by (auto simp: Flipper_ctor_def)
    from Flipper_Reset_Inl [OF this] show False by auto
  qed
next
  assume "batch_size < 1 \<or> system_size < 1 \<or> ls = []"
  then show "\<exists>msg. Flipper_ctor (batch_size, system_size) ls e = Inl (InvalidInputError msg)"
    by (auto simp: Flipper_ctor_def)
qed

text \<open>With an alphabet of at least two values and an oracle that returns, no operation
  of a constructed sampler fails.\<close>

lemma MetropolisLocalV2_Next_total:
  assumes inv: "MetropolisLocalV2_inv s"
    and total: "\<forall>X. \<exists>Y. LogVal machine X = Inr Y \<and> length Y = rows X"
    and "1 \<le> SystemSize (m_flipper s)"
    and "2 \<le> static_cast_int (length (m_local_states (m_flipper s)))"
  shows "\<exists>s'. MetropolisLocalV2_Next fp machine s = Inr s'"
proof -
  let ?f = "m_flipper s" and ?B = "BatchSize (m_flipper s)"
  from inv have shape: "rows (m_proposed_X s) = ?B" "cols (m_proposed_X s) = SystemSize ?f"
    and lc: "length (m_current_Y s) = ?B" and lr: "length (m_randoms s) = ?B"
    by (simp_all add: MetropolisLocalV2_inv_def)
  from shape obtain X where rd: "Flipper_Read_into ?f (m_proposed_X s) = Inr X"
    by (simp add: Flipper_Read_into_write_rows)
  from Flipper_Read_into_Inr [OF rd] have rX: "rows X = ?B" by blast
  from total obtain Y where lv: "LogVal machine X = Inr Y" and lY: "length Y = rows X"
    by blast
  from generate_randoms_total obtain rs e' where
    gn: "generate (length (m_randoms s)) uniform_real_distribution (m_engine ?f) = Inr (rs, e')"
    by blast
  from generate_randoms [OF gn] lr have lrs: "length rs = ?B" by simp
  let ?acc = "map2 (\<lambda>r p. r < p) rs (map2 (acceptance_probability fp) Y (m_current_Y s))"
  have la: "BatchSize (?f\<lparr>m_engine := e'\<rparr>) \<le> length ?acc"
    using lrs lY rX lc by (simp add: BatchSize_def)
  have "1 \<le> SystemSize (?f\<lparr>m_engine := e'\<rparr>)"
    "2 \<le> static_cast_int (length (m_local_states (?f\<lparr>m_engine := e'\<rparr>)))"
    using assms(3,4) by (simp_all add: SystemSize_def)
  from Flipper_Next_total [OF la this] obtain f' where
    "Flipper_Next (?f\<lparr>m_engine := e'\<rparr>) ?acc = Inr f'" by blast
  with rd lv gn show ?thesis by (simp add: MetropolisLocalV2_Next_def Let_def)
qed

lemma total_oracle_shape:
  assumes "\<forall>X. \<exists>Y. LogVal machine X = Inr Y \<and> length Y = rows X"
  shows "oracle_shape machine"
  unfolding oracle_shape_def
proof (intro allI impI)
  fix X Y assume "LogVal machine X = Inr Y"
  moreover from assms obtain Y' where "LogVal machine X = Inr Y'" "length Y' = rows X" by blast
  ultimately show "length Y = rows X" by simp
qed

lemma MetropolisLocalV2_Reset_inv:
  assumes "MetropolisLocalV2_inv s" and "oracle_shape machine"
    and "MetropolisLocalV2_Reset machine s = Inr s'"
  shows "MetropolisLocalV2_inv s'"
proof -
  from assms(1) have finv: "Flipper_inv (m_flipper s)" by (simp add: MetropolisLocalV2_inv_def)
  from MetropolisLocalV2_Reset_Inr [OF assms(3)] obtain f Y where
    lv: "LogVal machine (m_state f) = Inr Y" and s': "s' = s\<lparr>m_flipper := f, m_current_Y := Y\<rparr>"
    by blast
  from lv assms(2) have "length Y = rows (m_state f)" by (simp add: oracle_shape_def)
  with MetropolisLocalV2_Reset_flipper [OF assms(3) finv] assms(1) s' show ?thesis
    by (simp add: MetropolisLocalV2_inv_def BatchSize_def)
qed

lemma MetropolisLocalV2_Reset_total:
  assumes "\<forall>X. \<exists>Y. LogVal machine X = Inr Y \<and> length Y = rows X"
    and "1 \<le> SystemSize (m_flipper s)"
    and "2 \<le> static_cast_int (length (m_local_states (m_flipper s)))"
  shows "\<exists>s'. MetropolisLocalV2_Reset machine s = Inr s'"
proof -
  from Flipper_Reset_total [OF assms(2,3)] obtain f where r: "Flipper_Reset (m_flipper s) = Inr f"
    by blast
  from assms(1) obtain Y where "LogVal machine (Current f) = Inr Y" by blast
  with r show ?thesis by (simp add: MetropolisLocalV2_Reset_def)
qed

lemma run_total:
  assumes total: "\<forall>X. \<exists>Y. LogVal machine X = Inr Y \<and> length Y = rows X"
    and "MetropolisLocalV2_inv s"
    and "1 \<le> SystemSize (m_flipper s)"
    and "2 \<le> static_cast_int (length (m_local_states (m_flipper s)))"
  shows "\<exists>s'. run fp machine opns s = Inr s'"
  using assms(2-4)
proof (induction opns arbitrary: s)
  case Nil
  then show ?case by simp
next
  case (Cons opn opns)
  note shape = total_oracle_shape [OF total]
  from Cons.prems(1) have finv: "Flipper_inv (m_flipper s)"
    by (simp add: MetropolisLocalV2_inv_def)
  have "\<exists>s1. apply_operation fp machine opn s = Inr s1 \<and> MetropolisLocalV2_inv s1
          \<and> 1 \<le> SystemSize (m_flipper s1)
          \<and> 2 \<le> static_cast_int (length (m_local_states (m_flipper s1)))"
  proof (cases opn)
    case Reset
    from MetropolisLocalV2_Reset_total [OF total Cons.prems(2,3)] obtain s1 where
      r: "MetropolisLocalV2_Reset machine s = Inr s1" by blast
    from MetropolisLocalV2_Reset_inv [OF Cons.prems(1) shape r]
      MetropolisLocalV2_Reset_flipper [OF r finv] Cons.prems(2,3) r Reset
    show ?thesis by (simp add: apply_operation_def)
  next
    case Step
    from MetropolisLocalV2_Next_total [OF Cons.prems(1) total Cons.prems(2,3)] obtain s1 where
      r: "MetropolisLocalV2_Next fp machine s = Inr s1" by blast
    from MetropolisLocalV2_Next_inv [OF Cons.prems(1) shape r]
      MetropolisLocalV2_Next_flipper [OF r finv] Cons.prems(2,3) r Step
    show ?thesis by (simp add: apply_operation_def)
  next
    case ReadState
    with Cons.prems show ?thesis by (simp add: apply_operation_def)
  qed
  then obtain s1 where a: "apply_operation fp machine opn s = Inr s1"
    and i: "MetropolisLocalV2_inv s1" "1 \<le> SystemSize (m_flipper s1)"
      "2 \<le> static_cast_int (length (m_local_states (m_flipper s1)))"
    by blast
  from Cons.IH [OF i] obtain s' where "run fp machine opns s1 = Inr s'" by blast
  with a show ?case by simp
qed

lemma sampler_never_fails:
  assumes total: "\<forall>X. \<exists>Y. LogVal machine X = Inr Y \<and> length Y = rows X"
    and "1 \<le> batch_size" and "1 \<le> Nvisible machine"
    and "2 \<le> static_cast_int (length (LocalStates machine))"
  shows "\<exists>s0 s. MetropolisLocalV2_ctor machine batch_size e = Inr s0
           \<and> run fp machine opns s0 = Inr s"
proof -
  from Flipper_ctor_succeeds [OF assms(2-4)] obtain f where
    c: "Flipper_ctor (batch_size, Nvisible machine) (LocalStates machine) e = Inr f" by blast
  from total obtain Y where lv: "LogVal machine (Current f) = Inr Y" by blast
  from c lv assms(2) obtain s0 where s0: "MetropolisLocalV2_ctor machine batch_size e = Inr s0"
    by (simp add: MetropolisLocalV2_ctor_def MetropolisLocalV2_safe_def CheckBatchSize_def
        and_then_def)
  note C = MetropolisLocalV2_ctor_Inr [OF s0]
  from C total_oracle_shape [OF total] have "length (m_current_Y s0) = rows (m_state (m_flipper s0))"
    by (simp add: oracle_shape_def)
  with C have inv: "MetropolisLocalV2_inv s0"
    by (simp add: MetropolisLocalV2_inv_def BatchSize_def)
  from C assms(3) have sz: "1 \<le> SystemSize (m_flipper s0)" by simp
  from C assms(4) have al: "2 \<le> static_cast_int (length (m_local_states (m_flipper s0)))"
    by simp
  from run_total [OF total inv sz al] s0 show ?thesis by blast
qed

subsection \<open>The outcome of the constructor on the specification's examples\<close>

lemma Flipper_ctor_constructs:
  assumes "1 \<le> batch_size" and "1 \<le> system_size"
    and "2 \<le> static_cast_int (length ls)"
  shows "\<exists>f. Flipper_ctor (batch_size, system_size) ls e = Inr f
           \<and> rows (m_state f) = nat batch_size \<and> cols (m_state f) = nat system_size
           \<and> length (data (m_state f)) = nat batch_size * nat system_size
           \<and> set (data (m_state f)) \<subseteq> set ls"
proof -
  from Flipper_ctor_succeeds [OF assms] obtain f where
    c: "Flipper_ctor (batch_size, system_size) ls e = Inr f" by blast
  note C = Flipper_ctor_Inr [OF c]
  from C have "set (m_local_states f) = set ls" by simp
  with C have "rows (m_state f) = nat batch_size"
    "cols (m_state f) = nat system_size"
    "length (data (m_state f)) = nat batch_size * nat system_size"
    "set (data (m_state f)) \<subseteq> set ls"
    by (simp_all add: Flipper_inv_def BatchSize_def SystemSize_def)
  with c show ?thesis by blast
qed

lemma Flipper_ctor_messages:
  "Flipper_ctor (0, 3) [- 1, 1] e
     = Inl (InvalidInputError ''invalid batch size: 0; expected >=1'')"
  "Flipper_ctor (4, - 12) [- 1, 1] e
     = Inl (InvalidInputError ''invalid system size: -12; expected >=1'')"
  "Flipper_ctor (4, 3) [] e = Inl (InvalidInputError ''invalid local states: []'')"
  "CheckBatchSize 0
     = Inl (InvalidInputError ''invalid batch size: 0; expected a positive number'')"
  by (simp_all add: Flipper_ctor_def CheckBatchSize_def show_int_def)

lemma Flipper_ctor_spin_half:
  "\<exists>f. Flipper_ctor (4, 3) [- 1, 1] e = Inr f
         \<and> rows (m_state f) = 4 \<and> cols (m_state f) = 3
         \<and> length (data (m_state f)) = 12
         \<and> set (data (m_state f)) \<subseteq> {- 1, 1}"
proof -
  have "2 \<le> static_cast_int (length [- 1, 1 :: real])" by (simp add: static_cast_int_def)
  from Flipper_ctor_constructs [OF _ _ this, of 4 3 e] show ?thesis by simp
qed

subsection \<open>An alphabet of one value\<close>

text \<open>
  Claim C9. The claim is that the range \<open>[0, |alphabet| - 2]\<close> of the proposal-value
  draw is never empty for an input the constructor accepts, an alphabet of size 1
  included. The code does otherwise: with one chain, one site and the alphabet
  \<open>[0]\<close> the validation passes, \<^verbatim>\<open>Reset\<close> reaches \<^verbatim>\<open>RandomValues\<close>, and the
  draw is over \<open>[0, -1]\<close>, whatever the engine.
\<close>

theorem singleton_alphabet_inverted_range:
  "static_cast_int (length [0 :: real]) - 2 = - 1
   \<and> Flipper_ctor (1, 1) [0] e = Inl (InvertedRange 0 (- 1))"
  by (simp add: eval_defs)

text \<open>
  Claim C6. The claim is that construction throws \<^verbatim>\<open>InvalidInputError\<close> exactly
  for a batch size or system size below 1 or an empty alphabet, and succeeds for every
  other input. The code does otherwise for an alphabet of one value: two chains, one
  site and the alphabet \<open>[5]\<close> are none of the rejected inputs, and neither the chain
  state nor the sampler is constructed; the constructor runs into the draw over
  \<open>[0, -1]\<close>.
\<close>

theorem singleton_alphabet_not_constructed:
  "\<not> (2::int) < 1 \<and> \<not> (1::int) < 1 \<and> [5::real] \<noteq> []
   \<and> Flipper_ctor (2, 1) [5] e = Inl (InvertedRange 0 (- 1))
   \<and> MetropolisLocalV2_ctor \<lparr>Nvisible = 1, LocalStates = [5], LogVal = oracle\<rparr> 2 e
       = Inl (InvertedRange 0 (- 1))"
  by (simp add: eval_defs numeral_2_eq_2)

section \<open>Every reachable state is well-formed and proposes a change\<close>

lemma run_inv:
  assumes shape: "oracle_shape machine"
    and "MetropolisLocalV2_inv s" and "run fp machine opns s = Inr s'"
  shows "MetropolisLocalV2_inv s'"
  using assms(2,3)
proof (induction opns arbitrary: s)
  case Nil
  then show ?case by simp
next
  case (Cons opn opns)
  from Cons.prems(2) obtain s1 where a: "apply_operation fp machine opn s = Inr s1"
    and r: "run fp machine opns s1 = Inr s'"
    by (auto split: sum.splits)
  have "MetropolisLocalV2_inv s1"
  proof (cases opn)
    case Reset
    with a have "MetropolisLocalV2_Reset machine s = Inr s1" by (simp add: apply_operation_def)
    from MetropolisLocalV2_Reset_inv [OF Cons.prems(1) shape this] show ?thesis .
  next
    case Step
    with a have "MetropolisLocalV2_Next fp machine s = Inr s1" by (simp add: apply_operation_def)
    from MetropolisLocalV2_Next_inv [OF Cons.prems(1) shape this] show ?thesis by simp
  next
    case ReadState
    with a Cons.prems(1) show ?thesis by (simp add: apply_operation_def)
  qed
  from Cons.IH [OF this r] show ?case .
qed

lemma MetropolisLocalV2_ctor_inv:
  assumes "oracle_shape machine" and "MetropolisLocalV2_ctor machine batch_size e = Inr s"
  shows "MetropolisLocalV2_inv s"
proof -
  note C = MetropolisLocalV2_ctor_Inr [OF assms(2)]
  from C assms(1) have "length (m_current_Y s) = rows (m_state (m_flipper s))"
    by (simp add: oracle_shape_def)
  with C show ?thesis by (simp add: MetropolisLocalV2_inv_def BatchSize_def)
qed

text \<open>After every call of \<^verbatim>\<open>RandomValues\<close> on an alphabet without duplicates, the
  value proposed for a chain differs from the value at its proposed site.\<close>

lemma proposal_value_not_current:
  assumes "sorted ls" and "distinct ls" and "current \<in> set ls" and "idx + 1 < length ls"
  shows "proposal_value ls current idx \<noteq> current"
proof -
  from assms(3) obtain c where c: "c < length ls" "ls ! c = current"
    by (auto simp: in_set_conv_nth)
  from assms(4) have "proposal_value ls (ls ! c) idx
      \<in> proposal_value ls (ls ! c) ` {idx. idx + 1 < length ls}" by simp
  then have "proposal_value ls (ls ! c) idx \<in> set ls - {ls ! c}"
    unfolding proposal_value_image [OF assms(1,2) c(1)] .
  with c(2) show ?thesis by simp
qed

lemma RandomValues_no_self_transition:
  assumes rv: "RandomValues f = Inr f'"
    and len: "length (data (m_state f)) = BatchSize f * SystemSize f"
    and ls: "length (m_sites f) = BatchSize f" and lv: "length (m_values f) = BatchSize f"
    and sites: "\<forall>x \<in> set (m_sites f). x < SystemSize f"
    and sub: "set (data (m_state f)) \<subseteq> set (m_local_states f)"
    and "sorted (m_local_states f)" and "distinct (m_local_states f)"
    and j: "j < BatchSize f"
  shows "m_values f' ! j \<noteq> coeff (m_state f') j (m_sites f' ! j)"
proof -
  note E = RandomValues_effect [OF rv]
  from j lv have jv: "j < length (m_values f)" by simp
  from j ls sites have sj: "m_sites f ! j < cols (m_state f)" by (simp add: SystemSize_def)
  from len have len': "length (data (m_state f)) = BatchSize f * cols (m_state f)"
    by (simp add: SystemSize_def)
  from coeff_mem_data [OF len' j sj] sub
  have cur: "coeff (m_state f) j (m_sites f ! j) \<in> set (m_local_states f)" by blast
  from E j jv obtain idx where idx: "idx + 1 < length (m_local_states f)"
    "m_values f' ! j
       = proposal_value (m_local_states f) (coeff (m_state f) j (m_sites f ! j)) idx"
    by blast
  from proposal_value_not_current [OF assms(7,8) cur idx(1)] idx(2) E show ?thesis by simp
qed

lemma Flipper_Next_no_self_transition:
  assumes nx: "Flipper_Next f acc = Inr f'" and inv: "Flipper_inv f"
    and "sorted (m_local_states f)" and "distinct (m_local_states f)"
    and j: "j < BatchSize f"
  shows "m_values f' ! j \<noteq> coeff (m_state f') j (m_sites f' ! j)"
proof -
  from Flipper_Next_Inr [OF nx] obtain f1 where
    s1: "RandomSites (f\<lparr>m_state := commit f acc\<rparr>) = Inr f1" and s2: "RandomValues f1 = Inr f'"
    by blast
  note E1 = RandomSites_effect [OF s1]
  note D = commit_data_subset [OF inv, of acc]
  from E1 D inv have w: "length (data (m_state f1)) = BatchSize f1 * SystemSize f1"
    "length (m_sites f1) = BatchSize f1" "length (m_values f1) = BatchSize f1"
    "\<forall>x \<in> set (m_sites f1). x < SystemSize f1"
    "set (data (m_state f1)) \<subseteq> set (m_local_states f1)"
    by (simp_all add: Flipper_inv_def BatchSize_def SystemSize_def commit_shape)
  from E1 j have j1: "j < BatchSize f1" by (simp add: BatchSize_def commit_shape)
  from E1 assms(3,4) have "sorted (m_local_states f1)" "distinct (m_local_states f1)"
    by simp_all
  from RandomValues_no_self_transition [OF s2 w this j1] show ?thesis .
qed

lemma Flipper_Reset_no_self_transition:
  assumes rs: "Flipper_Reset f = Inr f'"
    and "length (m_sites f) = BatchSize f" and "length (m_values f) = BatchSize f"
    and "sorted (m_local_states f)" and "distinct (m_local_states f)"
    and j: "j < BatchSize f"
  shows "m_values f' ! j \<noteq> coeff (m_state f') j (m_sites f' ! j)"
proof -
  from rs obtain f1 f2 where s1: "RandomState f = Inr f1"
    and s2: "RandomSites f1 = Inr f2" and s3: "RandomValues f2 = Inr f'"
    by (auto simp: Flipper_Reset_def and_then_Inr)
  note E1 = RandomState_effect [OF s1]
  note E2 = RandomSites_effect [OF s2]
  from E1 E2 assms(2,3) have w: "length (data (m_state f2)) = BatchSize f2 * SystemSize f2"
    "length (m_sites f2) = BatchSize f2" "length (m_values f2) = BatchSize f2"
    "\<forall>x \<in> set (m_sites f2). x < SystemSize f2"
    "set (data (m_state f2)) \<subseteq> set (m_local_states f2)"
    by (simp_all add: BatchSize_def SystemSize_def)
  from E1 E2 j have j2: "j < BatchSize f2" by (simp add: BatchSize_def)
  from E1 E2 assms(4,5) have "sorted (m_local_states f2)" "distinct (m_local_states f2)"
    by simp_all
  from RandomValues_no_self_transition [OF s3 w this j2] show ?thesis .
qed

lemma constructed_no_self_transition:
  assumes "distinct (LocalStates machine)"
    and "MetropolisLocalV2_ctor machine batch_size e = Inr s0"
    and "run fp machine opns s0 = Inr s"
  shows "no_self_transition (m_flipper s)"
proof -
  let ?ok = "\<lambda>s. Flipper_inv (m_flipper s) \<and> sorted (m_local_states (m_flipper s))
               \<and> distinct (m_local_states (m_flipper s)) \<and> no_self_transition (m_flipper s)"
  have step: "?ok s2" if ok: "?ok s1" and a: "apply_operation fp machine opn s1 = Inr s2"
    for opn s1 s2
  proof (cases opn)
    case Reset
    with a have r: "MetropolisLocalV2_Reset machine s1 = Inr s2"
      by (simp add: apply_operation_def)
    from ok have finv: "Flipper_inv (m_flipper s1)" by simp
    note F = MetropolisLocalV2_Reset_flipper [OF r finv]
    from MetropolisLocalV2_Reset_Inr [OF r] obtain f Y where
      fr: "Flipper_Reset (m_flipper s1) = Inr f" and s2: "m_flipper s2 = f" by auto
    from finv have l: "length (m_sites (m_flipper s1)) = BatchSize (m_flipper s1)"
      "length (m_values (m_flipper s1)) = BatchSize (m_flipper s1)"
      by (simp_all add: Flipper_inv_def)
    from ok have sd: "sorted (m_local_states (m_flipper s1))"
      "distinct (m_local_states (m_flipper s1))" by simp_all
    have "no_self_transition (m_flipper s2)"
      unfolding no_self_transition_def s2
      using Flipper_Reset_no_self_transition [OF fr l sd] F s2 by simp
    with F ok show ?thesis by simp
  next
    case Step
    with a have r: "MetropolisLocalV2_Next fp machine s1 = Inr s2"
      by (simp add: apply_operation_def)
    from ok have finv: "Flipper_inv (m_flipper s1)" by simp
    note F = MetropolisLocalV2_Next_flipper [OF r finv]
    from MetropolisLocalV2_Next_Inr [OF r] obtain e' where
      nx: "Flipper_Next ((m_flipper s1)\<lparr>m_engine := e'\<rparr>) (m_accept s2) = Inr (m_flipper s2)"
      by auto
    have i: "Flipper_inv ((m_flipper s1)\<lparr>m_engine := e'\<rparr>)" using finv by simp
    from ok have sd: "sorted (m_local_states ((m_flipper s1)\<lparr>m_engine := e'\<rparr>))"
      "distinct (m_local_states ((m_flipper s1)\<lparr>m_engine := e'\<rparr>))" by simp_all
    have "no_self_transition (m_flipper s2)"
      unfolding no_self_transition_def
      using Flipper_Next_no_self_transition [OF nx i sd] F
      by (simp add: BatchSize_def commit_shape)
    with F ok show ?thesis by simp
  next
    case ReadState
    with a ok show ?thesis by (simp add: apply_operation_def)
  qed
  have runs: "?ok s2" if "?ok s1" "run fp machine opns s1 = Inr s2" for s1 s2
    using that
  proof (induction opns arbitrary: s1)
    case Nil
    then show ?case by simp
  next
    case (Cons opn opns)
    from Cons.prems(2) obtain s' where a: "apply_operation fp machine opn s1 = Inr s'"
      and r: "run fp machine opns s' = Inr s2"
      by (auto split: sum.splits)
    from Cons.IH [OF step [OF Cons.prems(1) a] r] show ?case .
  qed
  have init: "?ok s0"
  proof -
    from assms(2) obtain f where
      c: "Flipper_ctor (batch_size, Nvisible machine) (LocalStates machine) e = Inr f"
      and f: "m_flipper s0 = f"
      by (auto simp: MetropolisLocalV2_ctor_def MetropolisLocalV2_safe_def CheckBatchSize_def
          and_then_Inr split: if_splits)
    let ?f0 = "\<lparr>m_sites = replicate (nat batch_size) 0, m_values = replicate (nat batch_size) 0,
              m_state = \<lparr>rows = nat batch_size, cols = nat (Nvisible machine),
                         data = replicate (nat batch_size * nat (Nvisible machine)) 0\<rparr>,
              m_local_states = sort (LocalStates machine), m_engine = e\<rparr>"
    from c have r: "Flipper_Reset ?f0 = Inr f"
      by (auto simp: Flipper_ctor_def split: if_splits)
    have l: "length (m_sites ?f0) = BatchSize ?f0" "length (m_values ?f0) = BatchSize ?f0"
      by (simp_all add: BatchSize_def)
    have sd: "sorted (m_local_states ?f0)" "distinct (m_local_states ?f0)"
      using assms(1) by simp_all
    note R = Flipper_Reset_inv [OF r l]
    have "no_self_transition f"
      unfolding no_self_transition_def
      using Flipper_Reset_no_self_transition [OF r l sd] R by simp
    with R sd f show ?thesis by simp
  qed
  from runs [OF init assms(3)] show ?thesis by simp
qed

end
